theory Spec2Isabelle
  imports Complex_Main "HOL-Library.Word" "HOL-Library.Monad_Syntax"
begin

unbundle bit_operations_syntax

section \<open>Ball physics (engine/physics.ts)\<close>

text \<open>
  JavaScript numbers that hold measurements (positions, velocities, times, ratios) are
  modelled as reals; counts and indices are naturals or integers.
\<close>

record Ball =
  x :: real
  y :: real
  vx :: real
  vy :: real
  radius :: real

definition GRAVITY :: real where "GRAVITY = 600"
definition FRICTION :: real where "FRICTION = 0.985"
definition RESTITUTION :: real where "RESTITUTION = 0.4"
definition MAX_SPEED :: real where "MAX_SPEED = 800"

definition integrateBall :: "Ball \<Rightarrow> real \<Rightarrow> real \<Rightarrow> Ball" where
  "integrateBall ball dt mazeAngle =
     (let gx = GRAVITY * sin mazeAngle;
          gy = GRAVITY * cos mazeAngle;
          ball = ball\<lparr>vx := vx ball + gx * dt\<rparr>;
          ball = ball\<lparr>vy := vy ball + gy * dt\<rparr>;
          ball = ball\<lparr>vx := vx ball * FRICTION\<rparr>;
          ball = ball\<lparr>vy := vy ball * FRICTION\<rparr>;
          speed = sqrt (vx ball * vx ball + vy ball * vy ball);
          ball = (if speed > MAX_SPEED
                  then (let scale = MAX_SPEED / speed;
                            ball = ball\<lparr>vx := vx ball * scale\<rparr>
                        in ball\<lparr>vy := vy ball * scale\<rparr>)
                  else ball);
          ball = ball\<lparr>x := x ball + vx ball * dt\<rparr>
      in ball\<lparr>y := y ball + vy ball * dt\<rparr>)"

record Vec2 =
  nx :: real
  ny :: real

definition bounceBall :: "Ball \<Rightarrow> Vec2 \<Rightarrow> real \<Rightarrow> Ball" where
  "bounceBall ball normal penetration =
     (let ball = ball\<lparr>x := x ball + nx normal * penetration\<rparr>;
          ball = ball\<lparr>y := y ball + ny normal * penetration\<rparr>;
          dot = vx ball * nx normal + vy ball * ny normal
      in if dot < 0
         then (let ball = ball\<lparr>vx := vx ball - (1 + RESTITUTION) * dot * nx normal\<rparr>
               in ball\<lparr>vy := vy ball - (1 + RESTITUTION) * dot * ny normal\<rparr>)
         else ball)"

definition speed_of :: "Ball \<Rightarrow> real" where
  "speed_of ball = sqrt (vx ball * vx ball + vy ball * vy ball)"

text \<open>The four steps of one integration tick, written after the specification's wording.\<close>

definition spec_add_gravity :: "real \<Rightarrow> real \<Rightarrow> Ball \<Rightarrow> Ball" where
  "spec_add_gravity dt angle b =
     b\<lparr>vx := vx b + (GRAVITY * sin angle) * dt, vy := vy b + (GRAVITY * cos angle) * dt\<rparr>"

definition spec_friction :: "Ball \<Rightarrow> Ball" where
  "spec_friction b = b\<lparr>vx := vx b * FRICTION, vy := vy b * FRICTION\<rparr>"

definition spec_clamp_speed :: "Ball \<Rightarrow> Ball" where
  "spec_clamp_speed b =
     (if speed_of b > MAX_SPEED
      then b\<lparr>vx := vx b * (MAX_SPEED / speed_of b), vy := vy b * (MAX_SPEED / speed_of b)\<rparr>
      else b)"

definition spec_advance :: "real \<Rightarrow> Ball \<Rightarrow> Ball" where
  "spec_advance dt b = b\<lparr>x := x b + vx b * dt, y := y b + vy b * dt\<rparr>"

section \<open>Circle versus segment (engine/collision.ts)\<close>

record Segment =
  x1 :: real
  y1 :: real
  x2 :: real
  y2 :: real

record CollisionResult =
  hit :: bool
  normal :: Vec2
  penetration :: real

definition NO_HIT :: CollisionResult where
  "NO_HIT = \<lparr>hit = False, normal = \<lparr>nx = 0, ny = 0\<rparr>, penetration = 0\<rparr>"

text \<open>The literal 1e-10 of the source.\<close>

definition EPS10 :: real where "EPS10 = 1 / 10 ^ 10"

definition circleVsSegment :: "Ball \<Rightarrow> Segment \<Rightarrow> CollisionResult" where
  "circleVsSegment ball seg =
     (let dx = x2 seg - x1 seg;
          dy = y2 seg - y1 seg;
          lenSq = dx * dx + dy * dy
      in if lenSq < EPS10 then NO_HIT
         else
           (let t = max 0 (min 1 (((x ball - x1 seg) * dx + (y ball - y1 seg) * dy) / lenSq));
                cx = x1 seg + t * dx;
                cy = y1 seg + t * dy;
                distX = x ball - cx;
                distY = y ball - cy;
                dist = sqrt (distX * distX + distY * distY)
            in if dist \<ge> radius ball \<or> dist < EPS10 then NO_HIT
               else \<lparr>hit = True,
                     normal = \<lparr>nx = distX / dist, ny = distY / dist\<rparr>,
                     penetration = radius ball - dist\<rparr>))"

text \<open>
  Specification vocabulary for the collision claim: the point of the segment at
  parameter u, the Euclidean distance of the ball centre to a point, and what it means for
  a point to be a closest point of the segment at distance d.
\<close>

definition seg_point :: "Segment \<Rightarrow> real \<Rightarrow> real \<times> real" where
  "seg_point seg u = (x1 seg + u * (x2 seg - x1 seg), y1 seg + u * (y2 seg - y1 seg))"

definition centre_dist :: "Ball \<Rightarrow> real \<times> real \<Rightarrow> real" where
  "centre_dist ball pt = sqrt ((x ball - fst pt) * (x ball - fst pt) + (y ball - snd pt) * (y ball - snd pt))"

definition on_segment :: "Segment \<Rightarrow> real \<times> real \<Rightarrow> bool" where
  "on_segment seg pt = (\<exists>u. 0 \<le> u \<and> u \<le> 1 \<and> pt = seg_point seg u)"

definition closest_on_segment :: "Ball \<Rightarrow> Segment \<Rightarrow> real \<times> real \<Rightarrow> bool" where
  "closest_on_segment ball seg pt =
     (on_segment seg pt \<and>
      (\<forall>u. 0 \<le> u \<and> u \<le> 1 \<longrightarrow> centre_dist ball pt \<le> centre_dist ball (seg_point seg u)))"

definition segment_degenerate :: "Segment \<Rightarrow> bool" where
  "segment_degenerate seg =
     ((x2 seg - x1 seg) * (x2 seg - x1 seg) + (y2 seg - y1 seg) * (y2 seg - y1 seg) < EPS10)"

section \<open>Fixed-timestep loop (engine/time.ts)\<close>

definition PHYSICS_HZ :: real where "PHYSICS_HZ = 120"
definition FIXED_DT :: real where "FIXED_DT = 1 / PHYSICS_HZ"
definition MAX_FRAME_TIME :: real where "MAX_FRAME_TIME = 0.1"

record TimeState =
  accumulator :: real
  lastTime :: real
  alpha :: real
  elapsed :: real

text \<open>
  The while loop of updateTime. The physics callback mutates the game; here it is a
  function on an abstract world \<open>'w\<close>, called with the step it receives.
\<close>

function tickLoop :: "(real \<Rightarrow> 'w \<Rightarrow> 'w) \<Rightarrow> TimeState \<Rightarrow> 'w \<Rightarrow> TimeState \<times> 'w" where
  "tickLoop physicsTick state w =
     (if accumulator state \<ge> FIXED_DT
      then tickLoop physicsTick
             (state\<lparr>accumulator := accumulator state - FIXED_DT,
                    elapsed := elapsed state + FIXED_DT\<rparr>)
             (physicsTick FIXED_DT w)
      else (state, w))"
  by pat_completeness auto
termination
proof (relation "measure (\<lambda>(f, st, w). nat \<lfloor>accumulator st / FIXED_DT\<rfloor>)")
  show "wf (measure (\<lambda>(f, st, w). nat \<lfloor>accumulator st / FIXED_DT\<rfloor>))" by simp
next
  fix physicsTick :: "real \<Rightarrow> 'w \<Rightarrow> 'w" and state :: TimeState and w :: 'w
  assume a: "FIXED_DT \<le> accumulator state"
  have dtpos: "0 < FIXED_DT" by (simp add: FIXED_DT_def PHYSICS_HZ_def)
  have "(accumulator state - FIXED_DT) / FIXED_DT = accumulator state / FIXED_DT - 1"
    using dtpos by (simp add: diff_divide_distrib)
  moreover have "1 \<le> accumulator state / FIXED_DT" using a dtpos by simp
  then have "1 \<le> \<lfloor>accumulator state / FIXED_DT\<rfloor>" by linarith
  ultimately show "((physicsTick,
          state\<lparr>accumulator := accumulator state - FIXED_DT, elapsed := elapsed state + FIXED_DT\<rparr>,
          physicsTick FIXED_DT w), physicsTick, state, w)
        \<in> measure (\<lambda>(f, st, w). nat \<lfloor>accumulator st / FIXED_DT\<rfloor>)"
    by simp
qed

declare tickLoop.simps [simp del]

text \<open>updateTime returns the mutated state, the world after the ticks and the alpha.\<close>

definition updateTime :: "TimeState \<Rightarrow> real \<Rightarrow> (real \<Rightarrow> 'w \<Rightarrow> 'w) \<Rightarrow> 'w \<Rightarrow> TimeState \<times> 'w \<times> real" where
  "updateTime state now physicsTick w =
     (let currentTime = now / 1000;
          frameTime = currentTime - lastTime state;
          state = state\<lparr>lastTime := currentTime\<rparr>;
          frameTime = (if frameTime > MAX_FRAME_TIME then MAX_FRAME_TIME else frameTime);
          state = state\<lparr>accumulator := accumulator state + frameTime\<rparr>;
          (state, w) = tickLoop physicsTick state w;
          state = state\<lparr>alpha := accumulator state / FIXED_DT\<rparr>
      in (state, w, alpha state))"

text \<open>
  A sequence of frames: updateTime called once per timestamp, in order. The result lists
  the alpha returned by every call.
\<close>

fun runFrames :: "(real \<Rightarrow> 'w \<Rightarrow> 'w) \<Rightarrow> TimeState \<Rightarrow> 'w \<Rightarrow> real list \<Rightarrow> TimeState \<times> 'w \<times> real list" where
  "runFrames physicsTick state w [] = (state, w, [])"
| "runFrames physicsTick state w (now # nows) =
     (case updateTime state now physicsTick w of
        (state', w', a) \<Rightarrow>
          (case runFrames physicsTick state' w' nows of
             (state'', w'', as) \<Rightarrow> (state'', w'', a # as)))"

text \<open>Timestamps that never go back, starting from the state's last time (in seconds).\<close>

fun nonDecreasingFrom :: "real \<Rightarrow> real list \<Rightarrow> bool" where
  "nonDecreasingFrom t [] = True"
| "nonDecreasingFrom t (now # nows) = (t \<le> now / 1000 \<and> nonDecreasingFrom (now / 1000) nows)"

section \<open>Player profile (adapt/profile.ts)\<close>

record AttemptMetrics =
  totalTime :: real
  avgSpeed :: real
  idleRatio :: real
  riskRatio :: real
  collisionCount :: real
  directionChanges :: real
  exploration :: real
  won :: bool

definition EMA_ALPHA :: real where "EMA_ALPHA = 0.3"

record PlayerProfile =
  avgSpeed :: real
  avgIdleRatio :: real
  avgRiskRatio :: real
  avgCollisions :: real
  avgDirChanges :: real
  avgExploration :: real
  avgTime :: real
  attempts :: int

definition createProfile :: PlayerProfile where
  "createProfile = \<lparr>avgSpeed = 0, avgIdleRatio = 0, avgRiskRatio = 0, avgCollisions = 0,
     avgDirChanges = 0, avgExploration = 0, avgTime = 0, attempts = 0\<rparr>"

definition ema :: "real \<Rightarrow> real \<Rightarrow> real" where
  "ema prev current = prev * (1 - EMA_ALPHA) + current * EMA_ALPHA"

definition updateProfile :: "PlayerProfile \<Rightarrow> AttemptMetrics \<Rightarrow> PlayerProfile" where
  "updateProfile profile metrics =
     (let profile = profile\<lparr>attempts := attempts profile + 1\<rparr>
      in if attempts profile = 1
         then profile\<lparr>
                PlayerProfile.avgSpeed := AttemptMetrics.avgSpeed metrics,
                avgIdleRatio := idleRatio metrics,
                avgRiskRatio := riskRatio metrics,
                avgCollisions := collisionCount metrics,
                avgDirChanges := directionChanges metrics,
                avgExploration := exploration metrics,
                avgTime := totalTime metrics\<rparr>
         else profile\<lparr>
                PlayerProfile.avgSpeed := ema (PlayerProfile.avgSpeed profile) (AttemptMetrics.avgSpeed metrics),
                avgIdleRatio := ema (avgIdleRatio profile) (idleRatio metrics),
                avgRiskRatio := ema (avgRiskRatio profile) (riskRatio metrics),
                avgCollisions := ema (avgCollisions profile) (collisionCount metrics),
                avgDirChanges := ema (avgDirChanges profile) (directionChanges metrics),
                avgExploration := ema (avgExploration profile) (exploration metrics),
                avgTime := ema (avgTime profile) (totalTime metrics)\<rparr>)"

text \<open>
  The tracked fields of a profile, and the snapshot fields they are fed from, in the
  order of the assignments of updateProfile.
\<close>

definition trackedFields :: "PlayerProfile \<Rightarrow> real list" where
  "trackedFields p = [PlayerProfile.avgSpeed p, avgIdleRatio p, avgRiskRatio p, avgCollisions p,
     avgDirChanges p, avgExploration p, avgTime p]"

definition snapshotFields :: "AttemptMetrics \<Rightarrow> real list" where
  "snapshotFields m = [AttemptMetrics.avgSpeed m, idleRatio m, riskRatio m, collisionCount m,
     directionChanges m, exploration m, totalTime m]"

text \<open>The profile after n calls of updateProfile with the same snapshot.\<close>

fun repeatUpdate :: "nat \<Rightarrow> PlayerProfile \<Rightarrow> AttemptMetrics \<Rightarrow> PlayerProfile" where
  "repeatUpdate 0 p m = p"
| "repeatUpdate (Suc n) p m = updateProfile (repeatUpdate n p m) m"

section \<open>Generation parameters (maze/types.ts) and the difficulty mapping (adapt/mapping.ts)\<close>

record GenerationParams =
  wallDensity :: real
  branchiness :: real
  corridorWidth :: real
  radialDensity :: real
  decoyRate :: real
  pathLengthBias :: real
  exitOffset :: int
  exitWidth :: int

definition defaultGenerationParams :: GenerationParams where
  "defaultGenerationParams = \<lparr>wallDensity = 0.3, branchiness = 0.3, corridorWidth = 1.0,
     radialDensity = 0.2, decoyRate = 0.2, pathLengthBias = 0.5, exitOffset = -1, exitWidth = 2\<rparr>"

record ClampRange =
  rmin :: real
  rmax :: real

definition CLAMPS_wallDensity :: ClampRange where "CLAMPS_wallDensity = \<lparr>rmin = 0.1, rmax = 0.7\<rparr>"
definition CLAMPS_branchiness :: ClampRange where "CLAMPS_branchiness = \<lparr>rmin = 0.05, rmax = 0.6\<rparr>"
definition CLAMPS_corridorWidth :: ClampRange where "CLAMPS_corridorWidth = \<lparr>rmin = 1.0, rmax = 2.0\<rparr>"
definition CLAMPS_radialDensity :: ClampRange where "CLAMPS_radialDensity = \<lparr>rmin = 0.1, rmax = 0.35\<rparr>"
definition CLAMPS_decoyRate :: ClampRange where "CLAMPS_decoyRate = \<lparr>rmin = 0.0, rmax = 0.5\<rparr>"
definition CLAMPS_pathLengthBias :: ClampRange where "CLAMPS_pathLengthBias = \<lparr>rmin = 0.2, rmax = 0.8\<rparr>"
definition CLAMPS_exitWidth :: ClampRange where "CLAMPS_exitWidth = \<lparr>rmin = 1, rmax = 2\<rparr>"

definition MAX_DELTA :: real where "MAX_DELTA = 0.1"

definition clamp :: "real \<Rightarrow> real \<Rightarrow> real \<Rightarrow> real" where
  "clamp v mn mx = max mn (min mx v)"

definition rateLimited :: "real \<Rightarrow> real \<Rightarrow> real \<Rightarrow> real" where
  "rateLimited prev target maxDelta =
     (let delta = target - prev
      in if \<bar>delta\<bar> \<le> maxDelta then target else prev + sgn delta * maxDelta)"

definition mapProfileToParams :: "PlayerProfile \<Rightarrow> GenerationParams \<Rightarrow> GenerationParams" where
  "mapProfileToParams profile currentParams =
     (if attempts profile < 1 then currentParams
      else
        (let targetWallDensity = 0.2 + PlayerProfile.avgSpeed profile / 500;
             targetPathLength = 0.3 + PlayerProfile.avgSpeed profile / 600;
             targetBranchiness = 0.15 + (1 - avgDirChanges profile / 50) * 0.3;
             targetDecoyRate = 0.1 + (1 - avgCollisions profile / 20) * 0.2;
             targetCorridorWidth = 1.5 - avgExploration profile * 0.5;
             targetRadialDensity = 0.2 + avgRiskRatio profile * 0.15;
             targetExitWidth = (if avgTime profile > 60 then 2 else 1)
         in \<lparr>wallDensity = clamp (rateLimited (wallDensity currentParams) targetWallDensity MAX_DELTA)
                 (rmin CLAMPS_wallDensity) (rmax CLAMPS_wallDensity),
             branchiness = clamp (rateLimited (branchiness currentParams) targetBranchiness MAX_DELTA)
                 (rmin CLAMPS_branchiness) (rmax CLAMPS_branchiness),
             corridorWidth = clamp (rateLimited (corridorWidth currentParams) targetCorridorWidth MAX_DELTA)
                 (rmin CLAMPS_corridorWidth) (rmax CLAMPS_corridorWidth),
             radialDensity = clamp (rateLimited (radialDensity currentParams) targetRadialDensity MAX_DELTA)
                 (rmin CLAMPS_radialDensity) (rmax CLAMPS_radialDensity),
             decoyRate = clamp (rateLimited (decoyRate currentParams) targetDecoyRate MAX_DELTA)
                 (rmin CLAMPS_decoyRate) (rmax CLAMPS_decoyRate),
             pathLengthBias = clamp (rateLimited (pathLengthBias currentParams) targetPathLength MAX_DELTA)
                 (rmin CLAMPS_pathLengthBias) (rmax CLAMPS_pathLengthBias),
             exitOffset = -1,
             exitWidth = targetExitWidth\<rparr>))"

text \<open>
  The continuous parameters with their clamp ranges, for stating range and rate-limit
  properties field by field.
\<close>

definition continuousFields :: "GenerationParams \<Rightarrow> (real \<times> ClampRange) list" where
  "continuousFields g =
     [(wallDensity g, CLAMPS_wallDensity), (branchiness g, CLAMPS_branchiness),
      (corridorWidth g, CLAMPS_corridorWidth), (radialDensity g, CLAMPS_radialDensity),
      (decoyRate g, CLAMPS_decoyRate), (pathLengthBias g, CLAMPS_pathLengthBias)]"

definition inRange :: "real \<times> ClampRange \<Rightarrow> bool" where
  "inRange f = (rmin (snd f) \<le> fst f \<and> fst f \<le> rmax (snd f))"

section \<open>Seeded PRNG, Mulberry32 (engine/rng.ts)\<close>

text \<open>
  The generator state is a 32-bit integer: \<open>| 0\<close> and Math.imul wrap modulo \<open>2 ^ 32\<close>,
  \<open>>>>\<close> is the logical shift. A draw returns the value and the new state. The value is a
  multiple of \<open>2 ^ -32\<close> below 1, a number that double precision holds exactly, as it holds
  its product with a small integer range in nextInt.
\<close>

definition createRNG :: "int \<Rightarrow> 32 word" where
  "createRNG seed = word_of_int seed"

definition rngNext :: "32 word \<Rightarrow> real \<times> 32 word" where
  "rngNext state =
     (let state = state + 0x6d2b79f5;
          t = (state XOR drop_bit 15 state) * (1 OR state);
          t = (t + (t XOR drop_bit 7 t) * (61 OR t)) XOR t
      in (real_of_int (uint (t XOR drop_bit 14 t)) / 4294967296, state))"

definition nextInt :: "32 word \<Rightarrow> int \<Rightarrow> int \<Rightarrow> int \<times> 32 word" where
  "nextInt state mn mx =
     (let (v, state) = rngNext state
      in (\<lfloor>v * real_of_int (mx - mn)\<rfloor> + mn, state))"

section \<open>Maze model (maze/types.ts)\<close>

text \<open>
  Ring and slice counts and indices are naturals. The generator is specified for at least
  one ring and one slice; there \<open>rings - 1\<close> is the outermost ring, as in the source. The
  seed is an integer, the exit offset and width are integers (the offset -1 asks for a
  random slice, a width below 1 opens nothing).
\<close>

record MazeCell =
  ring :: nat
  slice :: nat
  wallInner :: bool
  wallOuter :: bool
  wallCW :: bool
  wallCCW :: bool

record ExitSector =
  sliceStart :: nat
  sliceCount :: int

record MazeConfig =
  rings :: nat
  slices :: nat
  seed :: int
  innerRadius :: real
  outerRadius :: real
  ballRadius :: real

record MazeData =
  cells :: "MazeCell list list"
  exit :: ExitSector
  config :: MazeConfig
  params :: GenerationParams
  finalSeed :: int

definition sliceAngle :: "nat \<Rightarrow> real" where
  "sliceAngle n = (2 * pi) / real n"

definition ringInnerRadius :: "MazeConfig \<Rightarrow> nat \<Rightarrow> real" where
  "ringInnerRadius cfg r =
     (let ringWidth = (outerRadius cfg - innerRadius cfg) / real (rings cfg)
      in innerRadius cfg + real r * ringWidth)"

text \<open>
  Reading and writing \<open>cells[r][s]\<close>. The grid is an array of rows; an access outside it
  meets \<open>undefined\<close> and the property access on it throws a TypeError, which is the
  value None. No caller catches it, so None is the outcome of the whole call.
\<close>

definition getCell :: "MazeCell list list \<Rightarrow> nat \<Rightarrow> nat \<Rightarrow> MazeCell option" where
  "getCell g r s = (if r < length g \<and> s < length (g ! r) then Some (g ! r ! s) else None)"

definition setCell :: "MazeCell list list \<Rightarrow> nat \<Rightarrow> nat \<Rightarrow> (MazeCell \<Rightarrow> MazeCell) \<Rightarrow> MazeCell list list option" where
  "setCell g r s f =
     (if r < length g \<and> s < length (g ! r)
      then Some (g[r := (g ! r)[s := f (g ! r ! s)]])
      else None)"

text \<open>A for loop over a list of values, threading the mutated state; it stops at a throw.\<close>

fun forEach :: "('a \<Rightarrow> 's \<Rightarrow> 's option) \<Rightarrow> 'a list \<Rightarrow> 's \<Rightarrow> 's option" where
  "forEach body [] st = Some st"
| "forEach body (a # as) st = (case body a st of None \<Rightarrow> None | Some st' \<Rightarrow> forEach body as st')"

section \<open>Maze generator (maze/generator.ts)\<close>

definition GEOMETRIC_MARGIN :: real where "GEOMETRIC_MARGIN = 4"
definition MAX_REGEN_ATTEMPTS :: nat where "MAX_REGEN_ATTEMPTS = 20"
definition ARC_BIAS :: nat where "ARC_BIAS = 4"

definition createEmptyGrid :: "MazeConfig \<Rightarrow> MazeCell list list" where
  "createEmptyGrid cfg =
     map (\<lambda>r. map (\<lambda>s. \<lparr>ring = r, slice = s, wallInner = True, wallOuter = True,
                          wallCW = True, wallCCW = True\<rparr>) [0..<slices cfg])
         [0..<rings cfg]"

datatype Direction = Inner | Outer | CW | CCW

record Neighbor =
  nring :: nat
  nslice :: nat
  direction :: Direction

text \<open>
  The counter-clockwise index \<open>(slice - 1 + slices) % slices\<close> is written with the sum
  first, so that it stays in the naturals.
\<close>

definition getNeighbors :: "nat \<Rightarrow> nat \<Rightarrow> MazeConfig \<Rightarrow> Neighbor list" where
  "getNeighbors r s cfg =
     (if r > 0 then [\<lparr>nring = r - 1, nslice = s, direction = Inner\<rparr>] else [])
     @ (if r < rings cfg - 1 then [\<lparr>nring = r + 1, nslice = s, direction = Outer\<rparr>] else [])
     @ [\<lparr>nring = r, nslice = (s + 1) mod slices cfg, direction = CW\<rparr>,
        \<lparr>nring = r, nslice = (s + slices cfg - 1) mod slices cfg, direction = CCW\<rparr>]"

definition removeWall :: "MazeCell list list \<Rightarrow> nat \<Rightarrow> nat \<Rightarrow> nat \<Rightarrow> nat \<Rightarrow> Direction \<Rightarrow> MazeCell list list option" where
  "removeWall g r1 s1 r2 s2 d =
     (case d of
        Inner \<Rightarrow> do { g \<leftarrow> setCell g r1 s1 (\<lambda>c. c\<lparr>wallInner := False\<rparr>);
                      setCell g r2 s2 (\<lambda>c. c\<lparr>wallOuter := False\<rparr>) }
      | Outer \<Rightarrow> do { g \<leftarrow> setCell g r1 s1 (\<lambda>c. c\<lparr>wallOuter := False\<rparr>);
                      setCell g r2 s2 (\<lambda>c. c\<lparr>wallInner := False\<rparr>) }
      | CW \<Rightarrow> do { g \<leftarrow> setCell g r1 s1 (\<lambda>c. c\<lparr>wallCW := False\<rparr>);
                   setCell g r2 s2 (\<lambda>c. c\<lparr>wallCCW := False\<rparr>) }
      | CCW \<Rightarrow> do { g \<leftarrow> setCell g r1 s1 (\<lambda>c. c\<lparr>wallCCW := False\<rparr>);
                    setCell g r2 s2 (\<lambda>c. c\<lparr>wallCW := False\<rparr>) })"

text \<open>The weighted list of unvisited neighbours: arc neighbours repeated ARC_BIAS times.\<close>

definition weightedNeighbors :: "(nat \<times> nat) set \<Rightarrow> Neighbor list \<Rightarrow> Neighbor list" where
  "weightedNeighbors visited neighbors =
     concat (map (\<lambda>n. if (nring n, nslice n) \<in> visited then []
                       else replicate (if direction n = CW \<or> direction n = CCW then ARC_BIAS else 1) n)
                 neighbors)"

text \<open>The index pairs at which a grid has a cell.\<close>

definition cellIndices :: "MazeCell list list \<Rightarrow> (nat \<times> nat) set" where
  "cellIndices g = {(r, s). r < length g \<and> s < length (g ! r)}"

lemma finite_cellIndices: "finite (cellIndices g)"
proof -
  have "cellIndices g \<subseteq> (\<Union>r \<in> {..<length g}. {r} \<times> {..<length (g ! r)})"
    by (auto simp: cellIndices_def)
  moreover have "finite (\<Union>r \<in> {..<length g}. {r} \<times> {..<length (g ! r)})" by simp
  ultimately show ?thesis by (rule finite_subset)
qed

lemma setCell_indices:
  "setCell g r s f = Some g' \<Longrightarrow> (r, s) \<in> cellIndices g \<and> cellIndices g' = cellIndices g"
  by (auto simp: setCell_def cellIndices_def nth_list_update split: if_splits)

lemma removeWall_indices:
  assumes "removeWall g r1 s1 r2 s2 d = Some g'"
  shows "(r2, s2) \<in> cellIndices g \<and> cellIndices g' = cellIndices g"
proof -
  from assms obtain g1 f1 f2 where a: "setCell g r1 s1 f1 = Some g1" and b: "setCell g1 r2 s2 f2 = Some g'"
    by (cases d) (auto simp: removeWall_def split: Option.bind_splits)
  from setCell_indices[OF a] setCell_indices[OF b] show ?thesis by simp
qed

lemma weightedNeighbors_unvisited:
  "n \<in> set (weightedNeighbors visited ns) \<Longrightarrow> (nring n, nslice n) \<notin> visited"
  by (auto simp: weightedNeighbors_def split: if_splits)

text \<open>
  The while loop of carveSpanningTree. The stack is a list whose head is the top. The loop
  ends because every push marks a cell of the grid that was not marked before.
\<close>

function carveLoop :: "MazeConfig \<Rightarrow> MazeCell list list \<Rightarrow> (nat \<times> nat) set \<Rightarrow> (nat \<times> nat) list \<Rightarrow> 32 word
    \<Rightarrow> (MazeCell list list \<times> 32 word) option" where
  "carveLoop cfg g visited [] rng = Some (g, rng)"
| "carveLoop cfg g visited ((cr, cs) # rest) rng =
     (let neighbors = getNeighbors cr cs cfg;
          weighted = weightedNeighbors visited neighbors
      in if weighted = [] then carveLoop cfg g visited rest rng
         else
           (let (i, rng') = nextInt rng 0 (int (length weighted))
            in if i < 0 \<or> int (length weighted) \<le> i then None
               else
                 (let chosen = weighted ! nat i
                  in case removeWall g cr cs (nring chosen) (nslice chosen) (direction chosen) of
                       None \<Rightarrow> None
                     | Some g' \<Rightarrow>
                         carveLoop cfg g' (insert (nring chosen, nslice chosen) visited)
                           ((nring chosen, nslice chosen) # (cr, cs) # rest) rng')))"
  by pat_completeness auto
termination
proof (relation "(\<lambda>(cfg, g, visited, stack, rng). card (cellIndices g - visited)) <*mlex*>
                 measure (\<lambda>(cfg, g, visited, stack, rng). length stack)")
  show "wf ((\<lambda>(cfg, g, visited, stack, rng). card (cellIndices g - visited)) <*mlex*>
                 measure (\<lambda>(cfg, g, visited, stack, rng). length stack))"
    by (simp add: wf_mlex)
next
  fix cfg :: MazeConfig and g :: "MazeCell list list" and visited :: "(nat \<times> nat) set"
    and cr cs :: nat and rest :: "(nat \<times> nat) list" and rng :: "32 word"
  show "((cfg, g, visited, rest, rng), cfg, g, visited, (cr, cs) # rest, rng)
       \<in> (\<lambda>(cfg, g, visited, stack, rng). card (cellIndices g - visited)) <*mlex*>
                 measure (\<lambda>(cfg, g, visited, stack, rng). length stack)"
    by (simp add: mlex_iff)
next
  fix cfg :: MazeConfig and g g' :: "MazeCell list list" and visited :: "(nat \<times> nat) set"
    and cr cs :: nat and rest :: "(nat \<times> nat) list" and rng rng' :: "32 word"
    and neighbors weighted :: "Neighbor list" and p :: "int \<times> 32 word" and i :: int and chosen :: Neighbor
  assume w: "weighted = weightedNeighbors visited neighbors" "weighted \<noteq> []"
    and i: "\<not> (i < 0 \<or> int (length weighted) \<le> i)"
    and c: "chosen = weighted ! nat i"
    and rw: "removeWall g cr cs (nring chosen) (nslice chosen) (direction chosen) = Some g'"
  from i have "nat i < length weighted" by linarith
  with c have "chosen \<in> set weighted" by simp
  with w have nv: "(nring chosen, nslice chosen) \<notin> visited"
    by (simp add: weightedNeighbors_unvisited)
  from removeWall_indices[OF rw] have ind: "(nring chosen, nslice chosen) \<in> cellIndices g"
    "cellIndices g' = cellIndices g" by simp_all
  have "cellIndices g' - insert (nring chosen, nslice chosen) visited \<subset> cellIndices g - visited"
    using nv ind by auto
  then have "card (cellIndices g' - insert (nring chosen, nslice chosen) visited) < card (cellIndices g - visited)"
    by (intro psubset_card_mono) (simp_all add: finite_cellIndices)
  then show "((cfg, g', insert (nring chosen, nslice chosen) visited,
               (nring chosen, nslice chosen) # (cr, cs) # rest, rng'),
              cfg, g, visited, (cr, cs) # rest, rng)
       \<in> (\<lambda>(cfg, g, visited, stack, rng). card (cellIndices g - visited)) <*mlex*>
                 measure (\<lambda>(cfg, g, visited, stack, rng). length stack)"
    by (simp add: mlex_iff)
qed

declare carveLoop.simps [simp del]

definition carveSpanningTree :: "MazeCell list list \<Rightarrow> MazeConfig \<Rightarrow> 32 word \<Rightarrow> (MazeCell list list \<times> 32 word) option" where
  "carveSpanningTree g cfg rng =
     (let startR = 0;
          (startS, rng) = nextInt rng 0 (int (slices cfg))
      in carveLoop cfg g {(startR, nat startS)} [(startR, nat startS)] rng)"

definition openEntryHoles :: "MazeCell list list \<Rightarrow> MazeConfig \<Rightarrow> 32 word \<Rightarrow> (MazeCell list list \<times> 32 word) option" where
  "openEntryHoles g cfg rng =
     (let numHoles = min 3 (max 2 (slices cfg div 4));
          spacing = slices cfg div numHoles;
          (offset, rng) = nextInt rng 0 (int (slices cfg))
      in do {
           g \<leftarrow> forEach (\<lambda>i g. let s = (nat offset + i * spacing) mod slices cfg
                                 in setCell g 0 s (\<lambda>c. c\<lparr>wallInner := False\<rparr>))
                  [0..<numHoles] g;
           Some (g, rng)
         })"

text \<open>
  One iteration of addExtraOpenings. \<open>cells[r]\<close> must be a row; the cell itself may be
  \<open>undefined\<close> and throws only where one of its properties is read. The second draw is
  made only when the first two conjuncts hold, as \<open>&&\<close> evaluates.
\<close>

definition extraOpeningStep :: "MazeConfig \<Rightarrow> MazeCell list list \<times> 32 word \<Rightarrow> (MazeCell list list \<times> 32 word) option" where
  "extraOpeningStep cfg st =
     (let (g, rng) = st;
          (r, rng) = nextInt rng 0 (int (rings cfg));
          (s, rng) = nextInt rng 0 (int (slices cfg));
          r = nat r;
          s = nat s
      in if \<not> r < length g then None
         else
           (let cell = (if s < length (g ! r) then Some (g ! r ! s) else None);
                (v, rng) = rngNext rng
            in if v < 0.7
               then
                 (if r > 0
                  then do {
                         c \<leftarrow> cell;
                         if wallInner c
                         then (let (v2, rng) = rngNext rng
                               in if v2 < 0.5
                                  then do { g \<leftarrow> removeWall g r s (r - 1) s Inner; Some (g, rng) }
                                  else if r < rings cfg - 1 \<and> wallOuter c
                                  then do { g \<leftarrow> removeWall g r s (r + 1) s Outer; Some (g, rng) }
                                  else Some (g, rng))
                         else if r < rings cfg - 1 \<and> wallOuter c
                         then do { g \<leftarrow> removeWall g r s (r + 1) s Outer; Some (g, rng) }
                         else Some (g, rng)
                       }
                  else if r < rings cfg - 1
                  then do {
                         c \<leftarrow> cell;
                         if wallOuter c
                         then do { g \<leftarrow> removeWall g r s (r + 1) s Outer; Some (g, rng) }
                         else Some (g, rng)
                       }
                  else Some (g, rng))
               else
                 (let ns = (s + 1) mod slices cfg
                  in do {
                       c \<leftarrow> cell;
                       if wallCW c
                       then do { g \<leftarrow> removeWall g r s r ns CW; Some (g, rng) }
                       else Some (g, rng)
                     })))"

text \<open>
  The number of openings is the floor of a product of reals; no property below depends on
  how many openings are made.
\<close>

definition addExtraOpenings :: "MazeCell list list \<Rightarrow> MazeConfig \<Rightarrow> GenerationParams \<Rightarrow> 32 word
    \<Rightarrow> (MazeCell list list \<times> 32 word) option" where
  "addExtraOpenings g cfg prm rng =
     (let totalCells = rings cfg * slices cfg;
          openingsToAdd = \<lfloor>real totalCells * branchiness prm * 0.5\<rfloor>
      in forEach (\<lambda>i st. extraOpeningStep cfg st) [0..<nat openingsToAdd] (g, rng))"

definition capRadialStep :: "MazeConfig \<Rightarrow> GenerationParams \<Rightarrow> nat \<Rightarrow> nat \<Rightarrow> MazeCell list list \<times> 32 word
    \<Rightarrow> (MazeCell list list \<times> 32 word) option" where
  "capRadialStep cfg prm r s st =
     (let (g, rng) = st
      in do {
           c \<leftarrow> getCell g r s;
           if \<not> wallCW c then Some (g, rng)
           else if r mod 2 = 1
           then (let ns = (s + 1) mod slices cfg
                 in do { g \<leftarrow> setCell g r s (\<lambda>c. c\<lparr>wallCW := False\<rparr>);
                         g \<leftarrow> setCell g r ns (\<lambda>c. c\<lparr>wallCCW := False\<rparr>);
                         Some (g, rng) })
           else (let (v, rng) = rngNext rng
                 in if v > radialDensity prm
                    then (let ns = (s + 1) mod slices cfg
                          in do { g \<leftarrow> setCell g r s (\<lambda>c. c\<lparr>wallCW := False\<rparr>);
                                  g \<leftarrow> setCell g r ns (\<lambda>c. c\<lparr>wallCCW := False\<rparr>);
                                  Some (g, rng) })
                    else Some (g, rng))
         })"

definition capRadialWalls :: "MazeCell list list \<Rightarrow> MazeConfig \<Rightarrow> GenerationParams \<Rightarrow> 32 word
    \<Rightarrow> (MazeCell list list \<times> 32 word) option" where
  "capRadialWalls g cfg prm rng =
     forEach (\<lambda>r st. forEach (\<lambda>s st. capRadialStep cfg prm r s st) [0..<slices cfg] st)
       [0..<rings cfg] (g, rng)"

definition placeExit :: "MazeCell list list \<Rightarrow> MazeConfig \<Rightarrow> GenerationParams \<Rightarrow> 32 word
    \<Rightarrow> (MazeCell list list \<times> ExitSector \<times> 32 word) option" where
  "placeExit g cfg prm rng =
     (let (start, rng) = (if exitOffset prm \<ge> 0
                          then (exitOffset prm mod int (slices cfg), rng)
                          else nextInt rng 0 (int (slices cfg)));
          start = nat start;
          count = min (exitWidth prm) (int (slices cfg))
      in do {
           g \<leftarrow> forEach (\<lambda>i g. let s = (start + i) mod slices cfg
                                 in setCell g (rings cfg - 1) s (\<lambda>c. c\<lparr>wallOuter := False\<rparr>))
                  [0..<nat count] g;
           Some (g, \<lparr>sliceStart = start, sliceCount = count\<rparr>, rng)
         })"

definition ensurePathStep :: "nat \<Rightarrow> nat \<Rightarrow> MazeCell list list \<Rightarrow> MazeCell list list option" where
  "ensurePathStep targetSlice r g =
     do {
       a \<leftarrow> getCell g r targetSlice;
       if wallOuter a
       then do {
              b \<leftarrow> getCell g (r + 1) targetSlice;
              if wallInner b
              then do { g \<leftarrow> setCell g r targetSlice (\<lambda>c. c\<lparr>wallOuter := False\<rparr>);
                        setCell g (r + 1) targetSlice (\<lambda>c. c\<lparr>wallInner := False\<rparr>) }
              else Some g
            }
       else Some g
     }"

definition ensurePathToExit :: "MazeCell list list \<Rightarrow> MazeConfig \<Rightarrow> ExitSector \<Rightarrow> MazeCell list list option" where
  "ensurePathToExit g cfg ex =
     (let targetSlice = sliceStart ex
      in forEach (ensurePathStep targetSlice) [0..<rings cfg - 1] g)"

definition checkGeometricConstraints :: "MazeConfig \<Rightarrow> bool" where
  "checkGeometricConstraints cfg =
     (let rw = (outerRadius cfg - innerRadius cfg) / real (rings cfg);
          minCellHeight = 2 * ballRadius cfg + GEOMETRIC_MARGIN
      in if rw < minCellHeight then False
         else
           (let innerR = ringInnerRadius cfg 0;
                arcLen = innerR * sliceAngle (slices cfg)
            in if arcLen < minCellHeight then False else True))"

definition fallbackRing :: "MazeConfig \<Rightarrow> nat \<Rightarrow> MazeCell list list \<Rightarrow> MazeCell list list option" where
  "fallbackRing cfg r g =
     do {
       g \<leftarrow> forEach (\<lambda>s g. let ns = (s + 1) mod slices cfg
                             in do { g \<leftarrow> setCell g r s (\<lambda>c. c\<lparr>wallCW := False\<rparr>);
                                     setCell g r ns (\<lambda>c. c\<lparr>wallCCW := False\<rparr>) })
              [0..<slices cfg] g;
       if r < rings cfg - 1
       then (let connectSlice = r mod slices cfg
             in do { g \<leftarrow> setCell g r connectSlice (\<lambda>c. c\<lparr>wallOuter := False\<rparr>);
                     setCell g (r + 1) connectSlice (\<lambda>c. c\<lparr>wallInner := False\<rparr>) })
       else Some g
     }"

definition generateFallbackMaze :: "MazeConfig \<Rightarrow> GenerationParams \<Rightarrow> MazeData option" where
  "generateFallbackMaze cfg prm =
     do {
       g \<leftarrow> forEach (fallbackRing cfg) [0..<rings cfg] (createEmptyGrid cfg);
       g \<leftarrow> setCell g (rings cfg - 1) 0 (\<lambda>c. c\<lparr>wallOuter := False\<rparr>);
       g \<leftarrow> setCell g (rings cfg - 1) 1 (\<lambda>c. c\<lparr>wallOuter := False\<rparr>);
       Some \<lparr>cells = g, exit = \<lparr>sliceStart = 0, sliceCount = 2\<rparr>, config = cfg, params = prm,
              finalSeed = seed cfg\<rparr>
     }"

section \<open>Maze solver (maze/solver.ts)\<close>

record SolveResult =
  solvable :: bool
  path :: "(nat \<times> nat) list"

definition key :: "nat \<Rightarrow> nat \<Rightarrow> nat \<Rightarrow> nat" where
  "key n r s = r * n + s"

definition exitCells :: "MazeConfig \<Rightarrow> ExitSector \<Rightarrow> nat set" where
  "exitCells cfg ex =
     set (map (\<lambda>i. key (slices cfg) (rings cfg - 1) ((sliceStart ex + i) mod slices cfg))
              [0..<nat (sliceCount ex)])"

text \<open>
  The visited map from a cell key to its parent key keeps insertion order; the parent -1 of
  the start cells is the value None. An entry is only ever set for a key that is absent.
\<close>

type_synonym visitedMap = "(nat \<times> nat option) list"

definition visitNeighbor :: "nat \<Rightarrow> nat \<Rightarrow> nat \<times> nat \<Rightarrow> visitedMap \<times> (nat \<times> nat) list \<Rightarrow> visitedMap \<times> (nat \<times> nat) list" where
  "visitNeighbor nk ck cell st =
     (let (visited, queue) = st
      in if map_of visited nk \<noteq> None then (visited, queue)
         else ((nk, Some ck) # visited, queue @ [cell]))"

definition exploreNeighbors :: "MazeConfig \<Rightarrow> MazeCell \<Rightarrow> nat \<Rightarrow> nat \<Rightarrow> visitedMap \<times> (nat \<times> nat) list \<Rightarrow> visitedMap \<times> (nat \<times> nat) list" where
  "exploreNeighbors cfg cell cr cs st =
     (let n = slices cfg;
          ck = key n cr cs;
          st = (if cr > 0 \<and> \<not> wallInner cell
                then visitNeighbor (key n (cr - 1) cs) ck (cr - 1, cs) st else st);
          st = (if cr < rings cfg - 1 \<and> \<not> wallOuter cell
                then visitNeighbor (key n (cr + 1) cs) ck (cr + 1, cs) st else st);
          st = (if \<not> wallCW cell
                then (let ns = (cs + 1) mod n in visitNeighbor (key n cr ns) ck (cr, ns) st) else st);
          st = (if \<not> wallCCW cell
                then (let ns = (cs + n - 1) mod n in visitNeighbor (key n cr ns) ck (cr, ns) st) else st)
      in st)"

text \<open>
  Path reconstruction follows parent pointers until the parent -1 (None). Nothing in the
  loop itself bounds it, so it is a partial function: None is a walk that never ends.
\<close>

partial_function (option) reconstructPath :: "nat \<Rightarrow> visitedMap \<Rightarrow> nat option \<Rightarrow> (nat \<times> nat) list \<Rightarrow> (nat \<times> nat) list option" where
  "reconstructPath n visited current acc =
     (case current of
        None \<Rightarrow> Some acc
      | Some c \<Rightarrow>
          reconstructPath n visited
            (case map_of visited c of Some p \<Rightarrow> p | None \<Rightarrow> None)
            ((c div n, c mod n) # acc))"

declare reconstructPath.simps [code]

text \<open>A bound on every key the search can produce from a cell of the grid.\<close>

definition keyBound :: "MazeCell list list \<Rightarrow> nat \<Rightarrow> nat" where
  "keyBound g n = (length g + 1) * n + sum_list (map length g) + 1"

definition searchMeasure :: "nat \<Rightarrow> visitedMap \<times> (nat \<times> nat) list \<Rightarrow> nat" where
  "searchMeasure b st = 2 * card ({..<b} - fst ` set (fst st)) + length (snd st)"

lemma visitNeighbor_measure:
  assumes "nk < b"
  shows "searchMeasure b (visitNeighbor nk ck c st) \<le> searchMeasure b st"
proof (cases "map_of (fst st) nk \<noteq> None")
  case True
  then show ?thesis by (simp add: visitNeighbor_def split_beta)
next
  case False
  then have nv: "nk \<notin> fst ` set (fst st)" by (simp add: map_of_eq_None_iff)
  have "{..<b} - fst ` set (fst st) = insert nk ({..<b} - insert nk (fst ` set (fst st)))"
    using assms nv by auto
  moreover have "nk \<notin> {..<b} - insert nk (fst ` set (fst st))" by simp
  ultimately have "card ({..<b} - fst ` set (fst st))
      = Suc (card ({..<b} - insert nk (fst ` set (fst st))))"
    by (metis card_insert_disjoint finite_Diff finite_lessThan)
  then show ?thesis using False by (simp add: visitNeighbor_def split_beta searchMeasure_def)
qed

lemma getCell_key_bounds:
  assumes "getCell g cr cs = Some cell"
  shows "key n (cr - 1) cs < keyBound g n" "key n (cr + 1) cs < keyBound g n"
    "key n cr ((cs + 1) mod n) < keyBound g n" "key n cr ((cs + n - 1) mod n) < keyBound g n"
proof -
  from assms have r: "cr < length g" and s: "cs < length (g ! cr)"
    by (simp_all add: getCell_def split: if_splits)
  have "length (g ! cr) \<in> set (map length g)" using r by simp
  then have "length (g ! cr) \<le> sum_list (map length g)" by (simp add: member_le_sum_list)
  with s have sm: "cs < sum_list (map length g)" by simp
  have le: "cr - 1 \<le> length g" "cr + 1 \<le> length g" "cr \<le> length g" using r by simp_all
  have m1: "(cr - 1) * n \<le> length g * n" using le(1) by (rule mult_le_mono1)
  have m2: "(cr + 1) * n \<le> length g * n" using le(2) by (rule mult_le_mono1)
  have m3: "cr * n \<le> length g * n" using le(3) by (rule mult_le_mono1)
  have kb: "keyBound g n = length g * n + n + sum_list (map length g) + 1"
    by (simp add: keyBound_def)
  show "key n (cr - 1) cs < keyBound g n" unfolding key_def kb using m1 sm by linarith
  show "key n (cr + 1) cs < keyBound g n" unfolding key_def kb using m2 sm by linarith
  have c1: "(cs + 1) mod n \<le> n + sum_list (map length g)"
  proof (cases "n = 0")
    case True
    then show ?thesis using sm by simp
  next
    case False
    then have "(cs + 1) mod n < n" by simp
    then show ?thesis by linarith
  qed
  have c2: "(cs + n - 1) mod n \<le> n + sum_list (map length g)"
  proof (cases "n = 0")
    case True
    then show ?thesis using sm by simp
  next
    case False
    then have "(cs + n - 1) mod n < n" by simp
    then show ?thesis by linarith
  qed
  show "key n cr ((cs + 1) mod n) < keyBound g n" unfolding key_def kb using m3 c1 by linarith
  show "key n cr ((cs + n - 1) mod n) < keyBound g n" unfolding key_def kb using m3 c2 by linarith
qed

lemma exploreNeighbors_measure:
  assumes "getCell g cr cs = Some cell"
  shows "searchMeasure (keyBound g (slices cfg)) (exploreNeighbors cfg cell cr cs st)
       \<le> searchMeasure (keyBound g (slices cfg)) st"
proof -
  note b = getCell_key_bounds[OF assms, of "slices cfg"]
  note v = visitNeighbor_measure
  define st1 where "st1 = (if cr > 0 \<and> \<not> wallInner cell
                then visitNeighbor (key (slices cfg) (cr - 1) cs) (key (slices cfg) cr cs) (cr - 1, cs) st else st)"
  define st2 where "st2 = (if cr < rings cfg - 1 \<and> \<not> wallOuter cell
                then visitNeighbor (key (slices cfg) (cr + 1) cs) (key (slices cfg) cr cs) (cr + 1, cs) st1 else st1)"
  define st3 where "st3 = (if \<not> wallCW cell
                then visitNeighbor (key (slices cfg) cr ((cs + 1) mod slices cfg)) (key (slices cfg) cr cs)
                       (cr, (cs + 1) mod slices cfg) st2 else st2)"
  define st4 where "st4 = (if \<not> wallCCW cell
                then visitNeighbor (key (slices cfg) cr ((cs + slices cfg - 1) mod slices cfg)) (key (slices cfg) cr cs)
                       (cr, (cs + slices cfg - 1) mod slices cfg) st3 else st3)"
  have e: "exploreNeighbors cfg cell cr cs st = st4"
    by (simp only: exploreNeighbors_def Let_def st1_def st2_def st3_def st4_def)
  have "searchMeasure (keyBound g (slices cfg)) st1 \<le> searchMeasure (keyBound g (slices cfg)) st"
    using v[OF b(1)] by (simp add: st1_def)
  moreover have "searchMeasure (keyBound g (slices cfg)) st2 \<le> searchMeasure (keyBound g (slices cfg)) st1"
    using v[OF b(2)] by (simp add: st2_def)
  moreover have "searchMeasure (keyBound g (slices cfg)) st3 \<le> searchMeasure (keyBound g (slices cfg)) st2"
    using v[OF b(3)] by (simp add: st3_def)
  moreover have "searchMeasure (keyBound g (slices cfg)) st4 \<le> searchMeasure (keyBound g (slices cfg)) st3"
    using v[OF b(4)] by (simp add: st4_def)
  ultimately show ?thesis unfolding e by linarith
qed

text \<open>
  The while loop of solveMaze over the cells still in the queue (from \<open>head\<close> on). A
  dequeued cell outside the grid throws at the first property read. The result None is
  "no result": a TypeError, or a path reconstruction that never ends.
\<close>

function bfsLoop :: "MazeCell list list \<Rightarrow> MazeConfig \<Rightarrow> nat set \<Rightarrow> visitedMap \<Rightarrow> (nat \<times> nat) list
    \<Rightarrow> SolveResult option" where
  "bfsLoop g cfg targets visited [] = Some \<lparr>solvable = False, path = []\<rparr>"
| "bfsLoop g cfg targets visited ((cr, cs) # rest) =
     (let ck = key (slices cfg) cr cs
      in case getCell g cr cs of
           None \<Rightarrow> None
         | Some cell \<Rightarrow>
             if ck \<in> targets \<and> \<not> wallOuter cell
             then (case reconstructPath (slices cfg) visited (Some ck) [] of
                     None \<Rightarrow> None
                   | Some p \<Rightarrow> Some \<lparr>solvable = True, path = p\<rparr>)
             else (let (visited', queue') = exploreNeighbors cfg cell cr cs (visited, rest)
                   in bfsLoop g cfg targets visited' queue'))"
  by pat_completeness auto
termination
proof (relation "measure (\<lambda>(g, cfg, targets, visited, queue).
                   searchMeasure (keyBound g (slices cfg)) (visited, queue))")
  show "wf (measure (\<lambda>(g, cfg, targets, visited, queue).
                   searchMeasure (keyBound g (slices cfg)) (visited, queue)))"
    by simp
next
  fix g :: "MazeCell list list" and cfg :: MazeConfig and targets :: "nat set"
    and visited visited' :: visitedMap and cr cs ck :: nat and rest queue' :: "(nat \<times> nat) list"
    and cell :: MazeCell and st :: "visitedMap \<times> (nat \<times> nat) list"
  assume c: "getCell g cr cs = Some cell"
    and st: "st = exploreNeighbors cfg cell cr cs (visited, rest)"
    and vq: "(visited', queue') = st"
  from exploreNeighbors_measure[OF c, of cfg "(visited, rest)"] st vq
  have "searchMeasure (keyBound g (slices cfg)) (visited', queue')
      \<le> searchMeasure (keyBound g (slices cfg)) (visited, rest)"
    by simp
  also have "\<dots> < searchMeasure (keyBound g (slices cfg)) (visited, (cr, cs) # rest)"
    by (simp add: searchMeasure_def)
  finally show "((g, cfg, targets, visited', queue'), g, cfg, targets, visited, (cr, cs) # rest)
      \<in> measure (\<lambda>(g, cfg, targets, visited, queue).
                   searchMeasure (keyBound g (slices cfg)) (visited, queue))"
    by simp
qed

declare bfsLoop.simps [simp del]

definition solveMaze :: "MazeCell list list \<Rightarrow> MazeConfig \<Rightarrow> ExitSector \<Rightarrow> SolveResult option" where
  "solveMaze g cfg ex =
     (let targets = exitCells cfg ex;
          (visited, queue) =
            fold (\<lambda>s (visited, queue). ((key (slices cfg) 0 s, None) # visited, queue @ [(0, s)]))
              [0..<slices cfg] ([], [])
      in bfsLoop g cfg targets visited queue)"

section \<open>generateMaze: retries and fallback\<close>

fun generateAttempts :: "nat \<Rightarrow> MazeConfig \<Rightarrow> GenerationParams \<Rightarrow> int \<Rightarrow> MazeData option" where
  "generateAttempts 0 cfg prm sd = generateFallbackMaze cfg prm"
| "generateAttempts (Suc k) cfg prm sd =
     (let rng = createRNG sd
      in if \<not> checkGeometricConstraints cfg then generateAttempts k cfg prm (sd + 1)
         else do {
           (g, rng) \<leftarrow> carveSpanningTree (createEmptyGrid cfg) cfg rng;
           (g, rng) \<leftarrow> openEntryHoles g cfg rng;
           (g, rng) \<leftarrow> addExtraOpenings g cfg prm rng;
           (g, rng) \<leftarrow> capRadialWalls g cfg prm rng;
           (g, ex, rng) \<leftarrow> placeExit g cfg prm rng;
           g \<leftarrow> ensurePathToExit g cfg ex;
           solution \<leftarrow> solveMaze g cfg ex;
           if solvable solution
           then Some \<lparr>cells = g, exit = ex, config = cfg, params = prm, finalSeed = sd\<rparr>
           else generateAttempts k cfg prm (sd + 1)
         })"

definition generateMaze :: "MazeConfig \<Rightarrow> GenerationParams \<Rightarrow> MazeData option" where
  "generateMaze cfg prm = generateAttempts MAX_REGEN_ATTEMPTS cfg prm (seed cfg)"

section \<open>Invariants and vocabulary of the maze proofs\<close>

text \<open>
  A grid of the configured shape: \<open>rings\<close> rows of \<open>slices\<close> cells.
\<close>

definition wfGrid :: "MazeConfig \<Rightarrow> MazeCell list list \<Rightarrow> bool" where
  "wfGrid cfg g = (length g = rings cfg \<and> (\<forall>r \<in> {0..<rings cfg}. length (g ! r) = slices cfg))"

text \<open>
  The paired wall flags agree: the clockwise wall of a cell is the counter-clockwise wall
  of the next slice, the outer wall of a cell is the inner wall of the cell outside it.
\<close>

definition paired :: "MazeConfig \<Rightarrow> MazeCell list list \<Rightarrow> bool" where
  "paired cfg g =
     ((\<forall>r \<in> {0..<rings cfg}. \<forall>s \<in> {0..<slices cfg}.
         wallCW (g ! r ! s) = wallCCW (g ! r ! ((s + 1) mod slices cfg)))
      \<and> (\<forall>r \<in> {0..<rings cfg - 1}. \<forall>s \<in> {0..<slices cfg}.
         wallOuter (g ! r ! s) = wallInner (g ! (r + 1) ! s)))"

text \<open>The grid after \<open>cells[r][s] = f(cells[r][s])\<close>.\<close>

definition upd :: "MazeCell list list \<Rightarrow> nat \<Rightarrow> nat \<Rightarrow> (MazeCell \<Rightarrow> MazeCell) \<Rightarrow> MazeCell list list" where
  "upd g r s f = g[r := (g ! r)[s := f (g ! r ! s)]]"

text \<open>What every generator stage keeps.\<close>

definition gridInv :: "MazeConfig \<Rightarrow> MazeCell list list \<Rightarrow> bool" where
  "gridInv cfg g = (wfGrid cfg g \<and> paired cfg g)"

text \<open>
  Every slice covered by the exit sector has its outer wall cleared on the outermost ring.
\<close>

definition exitOpen :: "MazeConfig \<Rightarrow> ExitSector \<Rightarrow> MazeCell list list \<Rightarrow> bool" where
  "exitOpen cfg ex g =
     (\<forall>i \<in> {0..<nat (sliceCount ex)}.
        \<not> wallOuter (g ! (rings cfg - 1) ! ((sliceStart ex + i) mod slices cfg)))"

text \<open>
  The visited map in insertion order (newest first): keys are distinct, a parent was
  inserted before its child, and only ring-0 keys have the parent -1.
\<close>

fun parentOrdered :: "nat \<Rightarrow> visitedMap \<Rightarrow> bool" where
  "parentOrdered n [] = True"
| "parentOrdered n ((k, p) # rest) =
     (k \<notin> fst ` set rest
      \<and> (case p of None \<Rightarrow> k < n | Some q \<Rightarrow> q \<in> fst ` set rest)
      \<and> parentOrdered n rest)"

text \<open>
  The state of the search: every queued cell has a slice index below \<open>slices\<close> and its
  key is in the visited map.
\<close>

definition searchInv :: "nat \<Rightarrow> visitedMap \<times> (nat \<times> nat) list \<Rightarrow> bool" where
  "searchInv n st =
     (parentOrdered n (fst st)
      \<and> (\<forall>c \<in> set (snd st). snd c < n \<and> key n (fst c) (snd c) \<in> fst ` set (fst st)))"

text \<open>Every queued cell lies inside the configured grid.\<close>

definition queueInGrid :: "MazeConfig \<Rightarrow> visitedMap \<times> (nat \<times> nat) list \<Rightarrow> bool" where
  "queueInGrid cfg st = (\<forall>c \<in> set (snd st). fst c < rings cfg \<and> snd c < slices cfg)"

text \<open>
  What every maze returned by generateMaze satisfies: it passed the solver, or it is the
  fallback maze.
\<close>

definition goodMaze :: "MazeConfig \<Rightarrow> GenerationParams \<Rightarrow> MazeData \<Rightarrow> bool" where
  "goodMaze cfg prm m =
     (gridInv cfg (cells m) \<and> config m = cfg \<and> exitOpen cfg (exit m) (cells m)
      \<and> (\<exists>res. solveMaze (cells m) cfg (exit m) = Some res
            \<and> (solvable res \<or> generateFallbackMaze cfg prm = Some m)))"

text \<open>The configuration of the solvability tests, for a size and a seed.\<close>

definition testConfig :: "nat \<Rightarrow> nat \<Rightarrow> int \<Rightarrow> MazeConfig" where
  "testConfig r s sd = \<lparr>rings = r, slices = s, seed = sd, innerRadius = 30, outerRadius = 200, ballRadius = 6\<rparr>"

text \<open>The solver returns and reports the maze solvable.\<close>

definition solvedBy :: "MazeData \<Rightarrow> bool" where
  "solvedBy m = (case solveMaze (cells m) (config m) (exit m) of None \<Rightarrow> False | Some res \<Rightarrow> solvable res)"

text \<open>
  A configuration with a single slice and the radii of the tests, whose twelve rings are
  thinner than the ball needs (170 / 12 < 16), so that every generation attempt is skipped.
\<close>

definition singleSliceConfig :: MazeConfig where
  "singleSliceConfig = \<lparr>rings = 12, slices = 1, seed = 0, innerRadius = 30, outerRadius = 200, ballRadius = 6\<rparr>"

section \<open>Concrete inputs used in the checked examples\<close>

definition wit_ball :: Ball where
  "wit_ball = \<lparr>x = 0, y = 0, vx = 3, vy = -4, radius = 6\<rparr>"

definition wit_normal :: Vec2 where
  "wit_normal = \<lparr>nx = 0, ny = 1\<rparr>"

definition cex_profile :: PlayerProfile where
  "cex_profile = \<lparr>avgSpeed = 100, avgIdleRatio = 0.1, avgRiskRatio = 0.2, avgCollisions = 5,
     avgDirChanges = 10, avgExploration = 0.5, avgTime = 30, attempts = 1\<rparr>"

definition cex_params :: GenerationParams where
  "cex_params = defaultGenerationParams\<lparr>wallDensity := 0.9\<rparr>"

definition wit_metrics :: AttemptMetrics where
  "wit_metrics = \<lparr>totalTime = 30, avgSpeed = 100, idleRatio = 0.1, riskRatio = 0.2,
     collisionCount = 5, directionChanges = 10, exploration = 0.5, won = True\<rparr>"

definition wit_metrics2 :: AttemptMetrics where
  "wit_metrics2 = \<lparr>totalTime = 50, avgSpeed = 200, idleRatio = 0.3, riskRatio = 0.4,
     collisionCount = 15, directionChanges = 20, exploration = 0.7, won = False\<rparr>"

definition wit_time :: TimeState where
  "wit_time = \<lparr>accumulator = 0, lastTime = 1, alpha = 0, elapsed = 0\<rparr>"

definition wit_seg :: Segment where
  "wit_seg = \<lparr>x1 = 0, y1 = 0, x2 = 10, y2 = 0\<rparr>"

definition wit_ball_touching :: Ball where
  "wit_ball_touching = \<lparr>x = 5, y = 6, vx = 0, vy = 0, radius = 6\<rparr>"

definition wit_ball_inside :: Ball where
  "wit_ball_inside = \<lparr>x = 5, y = 4, vx = 0, vy = 0, radius = 6\<rparr>"

section \<open>Theorems: physics\<close>

lemma speed_clamped: "speed_of (spec_clamp_speed b) \<le> MAX_SPEED"
proof (cases "speed_of b > MAX_SPEED")
  case False
  then show ?thesis by (simp add: spec_clamp_speed_def)
next
  case True
  define sp where "sp = speed_of b"
  have pos: "0 < sp" using True by (simp add: sp_def MAX_SPEED_def)
  have sq: "sp * sp = vx b * vx b + vy b * vy b"
    unfolding sp_def speed_of_def by (simp add: sum_nonneg)
  define k where "k = MAX_SPEED / sp"
  have kpos: "0 \<le> k" using pos by (simp add: k_def MAX_SPEED_def)
  have "(vx b * k) * (vx b * k) + (vy b * k) * (vy b * k) = (k * sp) * (k * sp)"
    using sq by (simp add: algebra_simps)
  then have "sqrt ((vx b * k) * (vx b * k) + (vy b * k) * (vy b * k)) = k * sp"
    using kpos pos by (simp add: real_sqrt_mult)
  moreover have "k * sp = MAX_SPEED" using pos by (simp add: k_def)
  ultimately show ?thesis
    using True by (simp add: spec_clamp_speed_def speed_of_def k_def sp_def)
qed

text \<open>
  C4. One call of integrateBall is exactly: add gravity times dt to the velocity, multiply
  the velocity by the friction factor, rescale the velocity to magnitude at most MAX_SPEED,
  add velocity times dt to the position. The speed after the call is at most MAX_SPEED = 800.
\<close>

theorem integrateBall_sequence_and_speed_cap:
  "integrateBall b dt angle
     = spec_advance dt (spec_clamp_speed (spec_friction (spec_add_gravity dt angle b)))
   \<and> speed_of (integrateBall b dt angle) \<le> MAX_SPEED
   \<and> MAX_SPEED = 800"
proof -
  have eq: "integrateBall b dt angle
     = spec_advance dt (spec_clamp_speed (spec_friction (spec_add_gravity dt angle b)))"
    by (simp add: integrateBall_def spec_advance_def spec_clamp_speed_def spec_friction_def
        spec_add_gravity_def speed_of_def Let_def)
  have "speed_of (spec_advance dt c) = speed_of c" for c
    by (simp add: spec_advance_def speed_of_def)
  then have "speed_of (integrateBall b dt angle) \<le> MAX_SPEED"
    using eq speed_clamped by simp
  then show ?thesis using eq by (simp add: MAX_SPEED_def)
qed

text \<open>
  The theorem at the ball of the other examples (velocity (3, -4)), one tick of 1/120 s in
  a maze rotated by 1 radian.
\<close>

theorem integrateBall_witness:
  "speed_of (integrateBall wit_ball (1 / 120) 1) \<le> 800
   \<and> integrateBall wit_ball (1 / 120) 1
       = spec_advance (1 / 120) (spec_clamp_speed (spec_friction (spec_add_gravity (1 / 120) 1 wit_ball)))"
  using integrateBall_sequence_and_speed_cap[of wit_ball "1 / 120" 1]
  by metis

text \<open>
  C10. For a unit normal and a penetration depth p \<ge> 0, bounceBall never increases the
  speed of the ball; the position always moves out by p along the normal; when the velocity
  does not point into the wall (dot product with the normal \<ge> 0) the velocity is unchanged,
  otherwise the normal component is reflected with factor 1 + RESTITUTION, RESTITUTION = 0.4.
\<close>

theorem bounceBall_never_speeds_up:
  assumes unit: "nx n * nx n + ny n * ny n = 1" and p: "0 \<le> p"
  shows "speed_of (bounceBall b n p) \<le> speed_of b
     \<and> x (bounceBall b n p) = x b + nx n * p
     \<and> y (bounceBall b n p) = y b + ny n * p
     \<and> (vx b * nx n + vy b * ny n \<ge> 0 \<longrightarrow>
          vx (bounceBall b n p) = vx b \<and> vy (bounceBall b n p) = vy b)
     \<and> (vx b * nx n + vy b * ny n < 0 \<longrightarrow>
          vx (bounceBall b n p) = vx b - (1 + RESTITUTION) * (vx b * nx n + vy b * ny n) * nx n
        \<and> vy (bounceBall b n p) = vy b - (1 + RESTITUTION) * (vx b * nx n + vy b * ny n) * ny n)
     \<and> RESTITUTION = 0.4"
proof -
  define d where "d = vx b * nx n + vy b * ny n"
  define k where "k = 1 + RESTITUTION"
  define b' where "b' = bounceBall b n p"
  have vx': "vx b' = (if d < 0 then vx b - k * d * nx n else vx b)"
    and vy': "vy b' = (if d < 0 then vy b - k * d * ny n else vy b)"
    and px: "x b' = x b + nx n * p" and py: "y b' = y b + ny n * p"
    by (simp_all add: b'_def bounceBall_def Let_def d_def k_def)
  have kk: "2 * k - k * k \<ge> 0" by (simp add: k_def RESTITUTION_def)
  have key: "(vx b - k * d * nx n) * (vx b - k * d * nx n) + (vy b - k * d * ny n) * (vy b - k * d * ny n)
      = vx b * vx b + vy b * vy b - (2 * k - k * k) * (d * d)"
  proof -
    have "(vx b - k * d * nx n) * (vx b - k * d * nx n) + (vy b - k * d * ny n) * (vy b - k * d * ny n)
      = vx b * vx b + vy b * vy b - 2 * k * d * (vx b * nx n + vy b * ny n)
        + k * k * d * d * (nx n * nx n + ny n * ny n)"
      by (simp add: algebra_simps)
    also have "\<dots> = vx b * vx b + vy b * vy b - 2 * k * d * d + k * k * d * d * 1"
      unfolding unit d_def[symmetric] by simp
    also have "\<dots> = vx b * vx b + vy b * vy b - (2 * k - k * k) * (d * d)"
      by (simp add: algebra_simps)
    finally show ?thesis .
  qed
  have "0 \<le> d * d" by simp
  with kk have "0 \<le> (2 * k - k * k) * (d * d)" by (rule mult_nonneg_nonneg)
  then have le: "(vx b - k * d * nx n) * (vx b - k * d * nx n) + (vy b - k * d * ny n) * (vy b - k * d * ny n)
      \<le> vx b * vx b + vy b * vy b" using key by linarith
  have sp: "speed_of b' \<le> speed_of b"
  proof (cases "d < 0")
    case True
    then show ?thesis unfolding speed_of_def vx' vy' using le by simp
  next
    case False
    then show ?thesis unfolding speed_of_def vx' vy' by simp
  qed
  show ?thesis
    using sp px py vx' vy' unfolding b'_def[symmetric] d_def[symmetric] k_def[symmetric]
    by (simp add: RESTITUTION_def)
qed

text \<open>
  The theorem at a ball moving into a horizontal wall.
\<close>

theorem bounceBall_witness:
  "speed_of (bounceBall wit_ball wit_normal 2) \<le> speed_of wit_ball
   \<and> y (bounceBall wit_ball wit_normal 2) = 2
   \<and> vy (bounceBall wit_ball wit_normal 2) = 1.6"
proof -
  have u: "nx wit_normal * nx wit_normal + ny wit_normal * ny wit_normal = 1"
    by (simp add: wit_normal_def)
  have p: "(0::real) \<le> 2" by simp
  show ?thesis
    using bounceBall_never_speeds_up[OF u p, of wit_ball]
    by (simp add: wit_ball_def wit_normal_def RESTITUTION_def)
qed

section \<open>Theorems: collision\<close>

lemma EPS10_pos: "0 < EPS10" by (simp add: EPS10_def)

text \<open>The clamped projection parameter computed by circleVsSegment.\<close>

lemma clamped_projection_is_closest:
  fixes bx by' ax ay dx dy :: real
  assumes L: "0 < dx * dx + dy * dy"
    and t: "t = max 0 (min 1 (((bx - ax) * dx + (by' - ay) * dy) / (dx * dx + dy * dy)))"
    and u: "0 \<le> u" "u \<le> 1"
  shows "(bx - (ax + t * dx)) * (bx - (ax + t * dx)) + (by' - (ay + t * dy)) * (by' - (ay + t * dy))
       \<le> (bx - (ax + u * dx)) * (bx - (ax + u * dx)) + (by' - (ay + u * dy)) * (by' - (ay + u * dy))"
proof -
  define l where "l = dx * dx + dy * dy"
  define e where "e = (bx - ax) * dx + (by' - ay) * dy"
  define us where "us = e / l"
  have lpos: "0 < l" using L by (simp add: l_def)
  have e: "e = us * l" using lpos by (simp add: us_def)
  have f: "(bx - (ax + v * dx)) * (bx - (ax + v * dx)) + (by' - (ay + v * dy)) * (by' - (ay + v * dy))
      = (bx - ax) * (bx - ax) + (by' - ay) * (by' - ay) - 2 * v * e + v * v * l" for v
    by (simp add: e_def l_def algebra_simps)
  have diff: "(- 2 * u * e + u * u * l) - (- 2 * t * e + t * t * l) = l * ((u - t) * (u + t - 2 * us))"
    unfolding e by (simp add: algebra_simps)
  have tt: "t = max 0 (min 1 us)" using t by (simp add: us_def e_def l_def)
  have "0 \<le> (u - t) * (u + t - 2 * us)"
  proof -
    consider "us < 0" | "0 \<le> us" "us \<le> 1" | "1 < us" by linarith
    then show ?thesis
    proof cases
      case 1
      then have "t = 0" using tt by simp
      moreover have "0 \<le> u * (u - 2 * us)" using u 1 by (intro mult_nonneg_nonneg) simp_all
      ultimately show ?thesis by simp
    next
      case 2
      then have "t = us" using tt by simp
      then have "(u - t) * (u + t - 2 * us) = (u - us) * (u - us)" by simp
      then show ?thesis by simp
    next
      case 3
      then have "t = 1" using tt by simp
      moreover have "0 \<le> (u - 1) * (u + 1 - 2 * us)" using u 3 by (intro mult_nonpos_nonpos) simp_all
      ultimately show ?thesis by simp
    qed
  qed
  then have "0 \<le> l * ((u - t) * (u + t - 2 * us))" using lpos by simp
  then show ?thesis unfolding f using diff by linarith
qed

lemma unit_normal:
  fixes a b :: real
  assumes "0 < sqrt (a * a + b * b)"
  shows "(a / sqrt (a * a + b * b)) * (a / sqrt (a * a + b * b))
       + (b / sqrt (a * a + b * b)) * (b / sqrt (a * a + b * b)) = 1"
proof -
  define d where "d = sqrt (a * a + b * b)"
  have dd: "d * d = a * a + b * b" unfolding d_def by (simp add: sum_nonneg)
  have dpos: "0 < d" using assms by (simp add: d_def)
  have "(a / d) * (a / d) + (b / d) * (b / d) = (a * a + b * b) / (d * d)"
    by (simp add: add_divide_distrib)
  also have "\<dots> = (d * d) / (d * d)" by (simp only: dd)
  also have "\<dots> = 1" using dpos by simp
  finally show ?thesis by (simp add: d_def)
qed

text \<open>
  C3. A degenerate segment (squared length below 1e-10, in particular a zero-length one)
  never hits. For any other segment there is a closest point of the segment to the ball
  centre, and circleVsSegment reports a hit exactly when the distance to it is strictly
  below the radius and not below 1e-10; on a hit the penetration is radius minus that
  distance and the normal is the unit vector from the closest point to the ball centre.
  Without a hit the result is the NO_HIT value.
\<close>

theorem circleVsSegment_hit_iff_within_radius:
  "(segment_degenerate seg \<longrightarrow> \<not> hit (circleVsSegment ball seg))
   \<and> (x1 seg = x2 seg \<and> y1 seg = y2 seg \<longrightarrow> segment_degenerate seg)
   \<and> (\<not> segment_degenerate seg \<longrightarrow>
        (\<exists>pt. closest_on_segment ball seg pt
          \<and> (hit (circleVsSegment ball seg)
                \<longleftrightarrow> centre_dist ball pt < radius ball \<and> \<not> centre_dist ball pt < EPS10)
          \<and> (hit (circleVsSegment ball seg) \<longrightarrow>
                penetration (circleVsSegment ball seg) = radius ball - centre_dist ball pt
              \<and> nx (normal (circleVsSegment ball seg)) = (x ball - fst pt) / centre_dist ball pt
              \<and> ny (normal (circleVsSegment ball seg)) = (y ball - snd pt) / centre_dist ball pt
              \<and> nx (normal (circleVsSegment ball seg)) * nx (normal (circleVsSegment ball seg))
                + ny (normal (circleVsSegment ball seg)) * ny (normal (circleVsSegment ball seg)) = 1)))
   \<and> (\<not> hit (circleVsSegment ball seg) \<longrightarrow> circleVsSegment ball seg = NO_HIT)"
proof -
  define dx where "dx = x2 seg - x1 seg"
  define dy where "dy = y2 seg - y1 seg"
  define l where "l = dx * dx + dy * dy"
  define t where "t = max 0 (min 1 (((x ball - x1 seg) * dx + (y ball - y1 seg) * dy) / l))"
  define pt where "pt = seg_point seg t"
  define d where "d = centre_dist ball pt"
  have deg: "segment_degenerate seg \<longleftrightarrow> l < EPS10"
    by (simp add: segment_degenerate_def l_def dx_def dy_def)
  have d_eq: "d = sqrt ((x ball - (x1 seg + t * dx)) * (x ball - (x1 seg + t * dx))
                      + (y ball - (y1 seg + t * dy)) * (y ball - (y1 seg + t * dy)))"
    by (simp add: d_def pt_def centre_dist_def seg_point_def dx_def dy_def)
  have res: "circleVsSegment ball seg =
      (if l < EPS10 then NO_HIT
       else if d \<ge> radius ball \<or> d < EPS10 then NO_HIT
       else \<lparr>hit = True,
             normal = \<lparr>nx = (x ball - (x1 seg + t * dx)) / d, ny = (y ball - (y1 seg + t * dy)) / d\<rparr>,
             penetration = radius ball - d\<rparr>)"
    unfolding circleVsSegment_def Let_def d_eq t_def l_def dx_def dy_def by simp
  have c1: "segment_degenerate seg \<longrightarrow> \<not> hit (circleVsSegment ball seg)"
    by (simp add: res deg NO_HIT_def)
  have c2: "x1 seg = x2 seg \<and> y1 seg = y2 seg \<longrightarrow> segment_degenerate seg"
    using EPS10_pos by (simp add: segment_degenerate_def)
  have c4: "\<not> hit (circleVsSegment ball seg) \<longrightarrow> circleVsSegment ball seg = NO_HIT"
    by (simp add: res NO_HIT_def)
  have c3: "\<exists>pt. closest_on_segment ball seg pt
          \<and> (hit (circleVsSegment ball seg)
                \<longleftrightarrow> centre_dist ball pt < radius ball \<and> \<not> centre_dist ball pt < EPS10)
          \<and> (hit (circleVsSegment ball seg) \<longrightarrow>
                penetration (circleVsSegment ball seg) = radius ball - centre_dist ball pt
              \<and> nx (normal (circleVsSegment ball seg)) = (x ball - fst pt) / centre_dist ball pt
              \<and> ny (normal (circleVsSegment ball seg)) = (y ball - snd pt) / centre_dist ball pt
              \<and> nx (normal (circleVsSegment ball seg)) * nx (normal (circleVsSegment ball seg))
                + ny (normal (circleVsSegment ball seg)) * ny (normal (circleVsSegment ball seg)) = 1)"
    if nd: "\<not> segment_degenerate seg"
  proof -
    have lge: "\<not> l < EPS10" using nd deg by simp
    then have lpos: "0 < dx * dx + dy * dy" using EPS10_pos by (simp add: l_def)
    have t01: "0 \<le> t" "t \<le> 1" by (simp_all add: t_def)
    have on: "on_segment seg pt"
      unfolding on_segment_def pt_def using t01 by blast
    have closest: "closest_on_segment ball seg pt"
      unfolding closest_on_segment_def
    proof (intro conjI allI impI on)
      fix u :: real assume u: "0 \<le> u \<and> u \<le> 1"
      have "(x ball - (x1 seg + t * dx)) * (x ball - (x1 seg + t * dx))
              + (y ball - (y1 seg + t * dy)) * (y ball - (y1 seg + t * dy))
          \<le> (x ball - (x1 seg + u * dx)) * (x ball - (x1 seg + u * dx))
              + (y ball - (y1 seg + u * dy)) * (y ball - (y1 seg + u * dy))"
        using u by (intro clamped_projection_is_closest[OF lpos]) (simp_all add: t_def l_def)
      then show "centre_dist ball pt \<le> centre_dist ball (seg_point seg u)"
        unfolding centre_dist_def pt_def seg_point_def fst_conv snd_conv dx_def dy_def
        by (rule real_sqrt_le_mono)
    qed
    have hit_iff: "hit (circleVsSegment ball seg) \<longleftrightarrow> d < radius ball \<and> \<not> d < EPS10"
      using lge by (auto simp: res NO_HIT_def)
    have fs: "fst pt = x1 seg + t * dx" "snd pt = y1 seg + t * dy"
      by (simp_all add: pt_def seg_point_def dx_def dy_def)
    have when_hit: "penetration (circleVsSegment ball seg) = radius ball - d
              \<and> nx (normal (circleVsSegment ball seg)) = (x ball - fst pt) / d
              \<and> ny (normal (circleVsSegment ball seg)) = (y ball - snd pt) / d
              \<and> nx (normal (circleVsSegment ball seg)) * nx (normal (circleVsSegment ball seg))
                + ny (normal (circleVsSegment ball seg)) * ny (normal (circleVsSegment ball seg)) = 1"
      if h: "hit (circleVsSegment ball seg)"
    proof -
      from h hit_iff have dd: "d < radius ball" "\<not> d < EPS10" by simp_all
      then have dpos: "0 < d" using EPS10_pos by linarith
      have r: "circleVsSegment ball seg = \<lparr>hit = True,
             normal = \<lparr>nx = (x ball - fst pt) / d, ny = (y ball - snd pt) / d\<rparr>,
             penetration = radius ball - d\<rparr>"
        using lge dd by (simp add: res fs)
      have "((x ball - fst pt) / d) * ((x ball - fst pt) / d) + ((y ball - snd pt) / d) * ((y ball - snd pt) / d) = 1"
        using dpos unfolding d_eq fs by (rule unit_normal)
      then show ?thesis by (simp add: r)
    qed
    show ?thesis
      using closest hit_iff when_hit unfolding d_def by (intro exI[of _ pt]) blast
  qed
  show ?thesis using c1 c2 c3 c4 by blast
qed

lemma sqrt16: "sqrt 16 = 4"
  using real_sqrt_abs[of 4] by simp

lemma sqrt36: "sqrt 36 = 6"
  using real_sqrt_abs[of 6] by simp

text \<open>
  The theorem at a ball 4 above a horizontal segment (hit, penetration 2, normal up) and
  at a ball exactly one radius above it (no hit).
\<close>

theorem circleVsSegment_witness:
  "\<not> segment_degenerate wit_seg
   \<and> circleVsSegment wit_ball_inside wit_seg
       = \<lparr>hit = True, normal = \<lparr>nx = 0, ny = 1\<rparr>, penetration = 2\<rparr>
   \<and> circleVsSegment wit_ball_touching wit_seg = NO_HIT
   \<and> (\<exists>pt. closest_on_segment wit_ball_inside wit_seg pt
          \<and> centre_dist wit_ball_inside pt < radius wit_ball_inside)"
proof -
  have nd: "\<not> segment_degenerate wit_seg"
    by (simp add: segment_degenerate_def wit_seg_def EPS10_def)
  have e1: "circleVsSegment wit_ball_inside wit_seg
       = \<lparr>hit = True, normal = \<lparr>nx = 0, ny = 1\<rparr>, penetration = 2\<rparr>"
    by (simp add: circleVsSegment_def wit_ball_inside_def wit_seg_def EPS10_def Let_def sqrt16)
  have e2: "circleVsSegment wit_ball_touching wit_seg = NO_HIT"
    by (simp add: circleVsSegment_def wit_ball_touching_def wit_seg_def EPS10_def Let_def sqrt36)
  have h: "hit (circleVsSegment wit_ball_inside wit_seg)" by (simp add: e1)
  from circleVsSegment_hit_iff_within_radius[of wit_seg wit_ball_inside] nd h
  have "\<exists>pt. closest_on_segment wit_ball_inside wit_seg pt
          \<and> centre_dist wit_ball_inside pt < radius wit_ball_inside"
    by blast
  then show ?thesis using nd e1 e2 by simp
qed

section \<open>Theorems: fixed timestep\<close>

lemma FIXED_DT_pos: "0 < FIXED_DT"
  by (simp add: FIXED_DT_def PHYSICS_HZ_def)

lemma tickLoop_result:
  assumes "0 \<le> accumulator st"
  shows "\<exists>n. tickLoop tick st w
            = (st\<lparr>accumulator := accumulator st - real n * FIXED_DT,
                   elapsed := elapsed st + real n * FIXED_DT\<rparr>,
               ((tick FIXED_DT) ^^ n) w)
          \<and> 0 \<le> accumulator st - real n * FIXED_DT
          \<and> accumulator st - real n * FIXED_DT < FIXED_DT"
  using assms
proof (induction tick st w rule: tickLoop.induct)
  case (1 tick st w)
  show ?case
  proof (cases "accumulator st \<ge> FIXED_DT")
    case False
    then have "tickLoop tick st w = (st, w)" by (subst tickLoop.simps) simp
    then show ?thesis using False "1.prems" by (intro exI[of _ 0]) simp
  next
    case True
    let ?st = "st\<lparr>accumulator := accumulator st - FIXED_DT, elapsed := elapsed st + FIXED_DT\<rparr>"
    have "0 \<le> accumulator ?st" using True by simp
    from "1.IH"[OF True this] obtain n where
      n: "tickLoop tick ?st (tick FIXED_DT w)
            = (?st\<lparr>accumulator := accumulator ?st - real n * FIXED_DT,
                   elapsed := elapsed ?st + real n * FIXED_DT\<rparr>,
               ((tick FIXED_DT) ^^ n) (tick FIXED_DT w))"
      and b: "0 \<le> accumulator ?st - real n * FIXED_DT"
         "accumulator ?st - real n * FIXED_DT < FIXED_DT"
      by blast
    have "tickLoop tick st w = tickLoop tick ?st (tick FIXED_DT w)"
      using True by (subst tickLoop.simps) simp
    then show ?thesis
      using n b by (intro exI[of _ "Suc n"]) (simp add: funpow_swap1 algebra_simps)
  qed
qed

lemma updateTime_step:
  assumes acc: "0 \<le> accumulator st" "accumulator st < FIXED_DT"
    and t: "lastTime st \<le> now / 1000"
  shows "\<exists>n st' a. updateTime st now tick w = (st', ((tick FIXED_DT) ^^ n) w, a)
      \<and> n \<le> 12 \<and> 0 \<le> a \<and> a < 1 \<and> a = accumulator st' / FIXED_DT
      \<and> 0 \<le> accumulator st' \<and> accumulator st' < FIXED_DT \<and> lastTime st' = now / 1000
      \<and> accumulator st' = accumulator st + min (now / 1000 - lastTime st) MAX_FRAME_TIME - real n * FIXED_DT"
proof -
  define ft where "ft = min (now / 1000 - lastTime st) MAX_FRAME_TIME"
  have ft: "0 \<le> ft" "ft \<le> MAX_FRAME_TIME" using t by (simp_all add: ft_def MAX_FRAME_TIME_def min_def)
  define s1 where "s1 = st\<lparr>lastTime := now / 1000, accumulator := accumulator st + ft\<rparr>"
  have a1: "0 \<le> accumulator s1" using acc ft by (simp add: s1_def)
  from tickLoop_result[OF a1, of tick w] obtain n where
    n: "tickLoop tick s1 w
            = (s1\<lparr>accumulator := accumulator s1 - real n * FIXED_DT,
                   elapsed := elapsed s1 + real n * FIXED_DT\<rparr>,
               ((tick FIXED_DT) ^^ n) w)"
    and b: "0 \<le> accumulator s1 - real n * FIXED_DT" "accumulator s1 - real n * FIXED_DT < FIXED_DT"
    by blast
  have "real n * FIXED_DT \<le> accumulator s1" using b by simp
  also have "\<dots> < FIXED_DT + MAX_FRAME_TIME" using acc ft by (simp add: s1_def)
  also have "\<dots> = 13 * FIXED_DT" by (simp add: FIXED_DT_def PHYSICS_HZ_def MAX_FRAME_TIME_def)
  finally have "real n < 13" using FIXED_DT_pos by simp
  then have n12: "n \<le> 12" by simp
  have u: "updateTime st now tick w
     = (s1\<lparr>accumulator := accumulator s1 - real n * FIXED_DT,
            elapsed := elapsed s1 + real n * FIXED_DT,
            alpha := (accumulator s1 - real n * FIXED_DT) / FIXED_DT\<rparr>,
        ((tick FIXED_DT) ^^ n) w, (accumulator s1 - real n * FIXED_DT) / FIXED_DT)"
  proof -
    have "(if MAX_FRAME_TIME < now / 1000 - lastTime st then MAX_FRAME_TIME else now / 1000 - lastTime st) = ft"
      by (simp add: ft_def min_def)
    then show ?thesis
      using n by (simp add: updateTime_def Let_def s1_def)
  qed
  show ?thesis
    using u n12 b FIXED_DT_pos
    by (intro exI[of _ n] exI[of _ "s1\<lparr>accumulator := accumulator s1 - real n * FIXED_DT,
            elapsed := elapsed s1 + real n * FIXED_DT,
            alpha := (accumulator s1 - real n * FIXED_DT) / FIXED_DT\<rparr>"]
        exI[of _ "(accumulator s1 - real n * FIXED_DT) / FIXED_DT"])
      (simp add: s1_def ft_def)
qed

lemma runFrames_invariant:
  assumes "0 \<le> accumulator st" "accumulator st < FIXED_DT" "nonDecreasingFrom (lastTime st) nows"
  shows "\<exists>st' n as. runFrames tick st w nows = (st', ((tick FIXED_DT) ^^ n) w, as)
     \<and> n \<le> 12 * length nows \<and> length as = length nows
     \<and> list_all (\<lambda>a. 0 \<le> a \<and> a < 1) as
     \<and> 0 \<le> accumulator st' \<and> accumulator st' < FIXED_DT"
  using assms
proof (induction nows arbitrary: st w)
  case Nil
  then show ?case by (intro exI[of _ st] exI[of _ 0]) simp
next
  case (Cons now nows)
  from Cons.prems have t: "lastTime st \<le> now / 1000" and nd: "nonDecreasingFrom (now / 1000) nows"
    by simp_all
  from updateTime_step[OF Cons.prems(1,2) t, of tick w] obtain n st1 a where
    u: "updateTime st now tick w = (st1, ((tick FIXED_DT) ^^ n) w, a)"
    and p: "n \<le> 12" "0 \<le> a" "a < 1" "0 \<le> accumulator st1" "accumulator st1 < FIXED_DT"
      "lastTime st1 = now / 1000"
    by blast
  from nd p(6) have nd1: "nonDecreasingFrom (lastTime st1) nows" by (simp only:)
  from Cons.IH[OF p(4,5) nd1, of "((tick FIXED_DT) ^^ n) w"] obtain st' k as where
    r: "runFrames tick st1 (((tick FIXED_DT) ^^ n) w) nows = (st', ((tick FIXED_DT) ^^ k) (((tick FIXED_DT) ^^ n) w), as)"
    and q: "k \<le> 12 * length nows" "length as = length nows" "list_all (\<lambda>a. 0 \<le> a \<and> a < 1) as"
      "0 \<le> accumulator st'" "accumulator st' < FIXED_DT"
    by blast
  have "runFrames tick st w (now # nows) = (st', ((tick FIXED_DT) ^^ (k + n)) w, a # as)"
    using u r by (simp add: funpow_add)
  then show ?case
    using p q by (intro exI[of _ st'] exI[of _ "k + n"] exI[of _ "a # as"]) simp
qed

text \<open>
  C9. Starting from an accumulator of 0, for timestamps that never go back, every call of
  updateTime returns an alpha in [0, 1); the accumulator ends in [0, FIXED_DT); the world
  is the result of calling the physics tick some number of times, every time with the step
  FIXED_DT = 1/120, and at most 12 times per frame because the frame delta is clamped to
  MAX_FRAME_TIME = 0.1. One call, from an accumulator in [0, FIXED_DT) and a timestamp not
  before the last one, adds the elapsed delta clamped to MAX_FRAME_TIME to the accumulator,
  takes FIXED_DT from it once per tick, and returns the accumulator divided by FIXED_DT.
\<close>

theorem updateTime_fixed_steps_and_alpha_range:
  assumes "accumulator st = 0" and "nonDecreasingFrom (lastTime st) nows"
  shows "(\<exists>st' n as. runFrames tick st w nows = (st', ((tick FIXED_DT) ^^ n) w, as)
     \<and> n \<le> 12 * length nows \<and> length as = length nows
     \<and> list_all (\<lambda>a. 0 \<le> a \<and> a < 1) as
     \<and> 0 \<le> accumulator st' \<and> accumulator st' < FIXED_DT)
     \<and> (\<forall>s0 now w0. 0 \<le> accumulator s0 \<and> accumulator s0 < FIXED_DT \<and> lastTime s0 \<le> now / 1000 \<longrightarrow>
           (\<exists>n s1 a. updateTime s0 now tick w0 = (s1, ((tick FIXED_DT) ^^ n) w0, a)
              \<and> accumulator s1
                   = accumulator s0 + min (now / 1000 - lastTime s0) MAX_FRAME_TIME - real n * FIXED_DT
              \<and> lastTime s1 = now / 1000
              \<and> a = accumulator s1 / FIXED_DT \<and> 0 \<le> a \<and> a < 1))
     \<and> FIXED_DT = 1 / 120 \<and> MAX_FRAME_TIME = 0.1"
proof -
  have "0 \<le> accumulator st" "accumulator st < FIXED_DT"
    using assms(1) FIXED_DT_pos by simp_all
  note frames = runFrames_invariant[OF this assms(2), of tick w]
  have step: "\<exists>n s1 a. updateTime s0 now tick w0 = (s1, ((tick FIXED_DT) ^^ n) w0, a)
              \<and> accumulator s1
                   = accumulator s0 + min (now / 1000 - lastTime s0) MAX_FRAME_TIME - real n * FIXED_DT
              \<and> lastTime s1 = now / 1000
              \<and> a = accumulator s1 / FIXED_DT \<and> 0 \<le> a \<and> a < 1"
    if "0 \<le> accumulator s0 \<and> accumulator s0 < FIXED_DT \<and> lastTime s0 \<le> now / 1000"
    for s0 now w0
  proof -
    from that have h: "0 \<le> accumulator s0" "accumulator s0 < FIXED_DT" "lastTime s0 \<le> now / 1000"
      by simp_all
    from updateTime_step[OF h, of tick w0] show ?thesis by blast
  qed
  have dts: "FIXED_DT = 1 / 120" "MAX_FRAME_TIME = 0.1"
    by (simp_all add: FIXED_DT_def PHYSICS_HZ_def MAX_FRAME_TIME_def)
  show ?thesis
    by (intro conjI allI impI) (rule frames, erule step, rule dts(1), rule dts(2))
qed

text \<open>
  The theorem at three frames (20 ms, 0 ms and a stall of 3980 ms), with a tick that logs
  the step it receives.
\<close>

theorem updateTime_witness:
  "accumulator wit_time = 0 \<and> nonDecreasingFrom (lastTime wit_time) [1020, 1020, 5000]
   \<and> (\<exists>st' n as. runFrames (\<lambda>dt log. log @ [dt]) wit_time [] [1020, 1020, 5000]
          = (st', (((\<lambda>dt log. log @ [dt]) FIXED_DT) ^^ n) [], as)
        \<and> n \<le> 36 \<and> list_all (\<lambda>a. 0 \<le> a \<and> a < 1) as)"
proof -
  have a: "accumulator wit_time = 0" by (simp add: wit_time_def)
  have b: "nonDecreasingFrom (lastTime wit_time) [1020, 1020, 5000]" by (simp add: wit_time_def)
  from updateTime_fixed_steps_and_alpha_range[OF a b, of "\<lambda>dt log. log @ [dt]" "[]"]
  obtain st' n as where
    "runFrames (\<lambda>dt log. log @ [dt]) wit_time [] [1020, 1020, 5000]
          = (st', (((\<lambda>dt log. log @ [dt]) FIXED_DT) ^^ n) [], as)"
    "n \<le> 12 * length [1020, 1020, 5000::real]" "list_all (\<lambda>a. 0 \<le> a \<and> a < 1) as"
    by blast
  then show ?thesis using a b by (intro conjI exI[of _ st'] exI[of _ n] exI[of _ as]) simp_all
qed

section \<open>Theorems: player profile and difficulty mapping\<close>

lemma ema_dist: "ema p c - c = (1 - EMA_ALPHA) * (p - c)"
  by (simp add: ema_def algebra_simps)

lemma trackedFields_first:
  "attempts p = 0 \<Longrightarrow> trackedFields (updateProfile p m) = snapshotFields m"
  by (simp add: updateProfile_def trackedFields_def snapshotFields_def Let_def)

lemma trackedFields_ema:
  "attempts p \<noteq> 0 \<Longrightarrow>
   trackedFields (updateProfile p m) = map2 ema (trackedFields p) (snapshotFields m)"
  by (simp add: updateProfile_def trackedFields_def snapshotFields_def Let_def)

lemma length_fields [simp]: "length (trackedFields p) = 7" "length (snapshotFields m) = 7"
  by (simp_all add: trackedFields_def snapshotFields_def)

lemma abs_scaled:
  fixes a b c k :: real
  assumes "a - c = k * (b - c)" "0 \<le> k"
  shows "\<bar>a - c\<bar> = k * \<bar>b - c\<bar>"
  using assms by (simp only: abs_mult abs_of_nonneg)

lemma field_step:
  assumes "i < 7"
  shows "\<bar>trackedFields (updateProfile p m) ! i - snapshotFields m ! i\<bar>
          = (if attempts p = 0 then 0 else (1 - EMA_ALPHA) * \<bar>trackedFields p ! i - snapshotFields m ! i\<bar>)"
proof (cases "attempts p = 0")
  case True
  then show ?thesis by (simp add: trackedFields_first)
next
  case False
  have "trackedFields (updateProfile p m) ! i - snapshotFields m ! i
      = (1 - EMA_ALPHA) * (trackedFields p ! i - snapshotFields m ! i)"
    using assms by (simp add: trackedFields_ema[OF False] ema_dist)
  moreover have "0 \<le> 1 - EMA_ALPHA" by (simp add: EMA_ALPHA_def)
  ultimately have "\<bar>trackedFields (updateProfile p m) ! i - snapshotFields m ! i\<bar>
      = (1 - EMA_ALPHA) * \<bar>trackedFields p ! i - snapshotFields m ! i\<bar>"
    by (rule abs_scaled)
  then show ?thesis using False by simp
qed

lemma shrink:
  fixes d :: real
  assumes "0 \<le> d"
  shows "(1 - EMA_ALPHA) * d \<le> d" and "d \<noteq> 0 \<Longrightarrow> (1 - EMA_ALPHA) * d < d"
  using assms by (simp_all add: EMA_ALPHA_def)

lemma dist_step:
  assumes "i < 7"
  shows "\<bar>trackedFields (updateProfile p m) ! i - snapshotFields m ! i\<bar>
         \<le> \<bar>trackedFields p ! i - snapshotFields m ! i\<bar>"
    and "trackedFields p ! i \<noteq> snapshotFields m ! i \<Longrightarrow>
         \<bar>trackedFields (updateProfile p m) ! i - snapshotFields m ! i\<bar>
         < \<bar>trackedFields p ! i - snapshotFields m ! i\<bar>"
proof -
  let ?d = "\<bar>trackedFields p ! i - snapshotFields m ! i\<bar>"
  have d0: "0 \<le> ?d" by simp
  show "\<bar>trackedFields (updateProfile p m) ! i - snapshotFields m ! i\<bar> \<le> ?d"
    using shrink(1)[OF d0] by (simp only: field_step[OF assms] split: if_splits) simp
  assume "trackedFields p ! i \<noteq> snapshotFields m ! i"
  then have "?d \<noteq> 0" by simp
  then show "\<bar>trackedFields (updateProfile p m) ! i - snapshotFields m ! i\<bar> < ?d"
    using shrink(2)[OF d0] by (simp only: field_step[OF assms] split: if_splits) simp
qed

lemma repeat_dist_bound:
  assumes "i < 7"
  shows "\<bar>trackedFields (repeatUpdate n p m) ! i - snapshotFields m ! i\<bar>
         \<le> (1 - EMA_ALPHA) ^ n * \<bar>trackedFields p ! i - snapshotFields m ! i\<bar>"
proof (induction n)
  case 0
  then show ?case by simp
next
  case (Suc n)
  let ?q = "repeatUpdate n p m"
  have k: "0 \<le> 1 - EMA_ALPHA" by (simp add: EMA_ALPHA_def)
  have "\<bar>trackedFields (updateProfile ?q m) ! i - snapshotFields m ! i\<bar>
        \<le> (1 - EMA_ALPHA) * \<bar>trackedFields ?q ! i - snapshotFields m ! i\<bar>"
    using k by (simp only: field_step[OF assms] split: if_splits) simp
  also have "\<dots> \<le> (1 - EMA_ALPHA) * ((1 - EMA_ALPHA) ^ n * \<bar>trackedFields p ! i - snapshotFields m ! i\<bar>)"
    using Suc k by (rule mult_left_mono)
  finally show ?case by (simp add: mult.assoc)
qed

lemma repeat_converges:
  assumes "i < 7"
  shows "(\<lambda>n. trackedFields (repeatUpdate n p m) ! i) \<longlonglongrightarrow> snapshotFields m ! i"
proof -
  let ?c = "snapshotFields m ! i"
  let ?d0 = "\<bar>trackedFields p ! i - ?c\<bar>"
  have "(\<lambda>n. (1 - EMA_ALPHA) ^ n * ?d0) \<longlonglongrightarrow> 0 * ?d0"
    by (intro tendsto_mult LIMSEQ_realpow_zero tendsto_const) (simp_all add: EMA_ALPHA_def)
  then have z: "(\<lambda>n. (1 - EMA_ALPHA) ^ n * ?d0) \<longlonglongrightarrow> 0" by simp
  have "(\<lambda>n. \<bar>trackedFields (repeatUpdate n p m) ! i - ?c\<bar>) \<longlonglongrightarrow> 0"
    by (rule tendsto_sandwich[OF _ _ tendsto_const z])
      (simp_all add: repeat_dist_bound[OF assms])
  then have "(\<lambda>n. trackedFields (repeatUpdate n p m) ! i - ?c) \<longlonglongrightarrow> 0"
    by (rule tendsto_rabs_zero_cancel)
  then show ?thesis by (simp add: LIM_zero_iff)
qed

lemma attempts_updateProfile: "attempts (updateProfile p m) = attempts p + 1"
  by (simp add: updateProfile_def Let_def)

lemma attempts_repeat: "attempts (repeatUpdate n p m) = attempts p + int n"
  by (induction n) (simp_all add: attempts_updateProfile)

lemma attempts_foldl: "attempts (foldl updateProfile p ms) = attempts p + int (length ms)"
  by (induction ms arbitrary: p) (simp_all add: attempts_updateProfile)

lemma later_calls_blend:
  assumes "attempts p = 0" "ms \<noteq> []"
  shows "trackedFields (updateProfile (foldl updateProfile p ms) m)
         = map2 ema (trackedFields (foldl updateProfile p ms)) (snapshotFields m)"
proof -
  have "attempts (foldl updateProfile p ms) \<noteq> 0"
    using assms by (simp add: attempts_foldl)
  then show ?thesis by (rule trackedFields_ema)
qed

text \<open>
  C8. Every updateProfile call counts one attempt. On a fresh profile (no attempts) one
  call sets every tracked field to the snapshot field. On a profile with attempts, and so
  on every call after the first on a fresh profile, every tracked field is blended with
  weight 0.3 for the new value and 0.7 for the prior average. Under repeated calls with a
  constant snapshot the distance of every field to the snapshot value never increases,
  strictly decreases while it is not zero, and the field converges to the snapshot value.
\<close>

theorem updateProfile_first_exact_then_ema_converges:
  "attempts (updateProfile p m) = attempts p + 1
   \<and> (attempts p = 0 \<longrightarrow> trackedFields (updateProfile p m) = snapshotFields m)
   \<and> (attempts p \<noteq> 0 \<longrightarrow>
        trackedFields (updateProfile p m)
          = map2 (\<lambda>prev cur. prev * (1 - 0.3) + cur * 0.3) (trackedFields p) (snapshotFields m))
   \<and> (attempts p = 0 \<longrightarrow> ms \<noteq> [] \<longrightarrow>
        trackedFields (updateProfile (foldl updateProfile p ms) m)
          = map2 (\<lambda>prev cur. prev * (1 - 0.3) + cur * 0.3)
              (trackedFields (foldl updateProfile p ms)) (snapshotFields m))
   \<and> (\<forall>n. attempts (repeatUpdate n p m) = attempts p + int n)
   \<and> (\<forall>i < 7. \<forall>n.
        \<bar>trackedFields (repeatUpdate (Suc n) p m) ! i - snapshotFields m ! i\<bar>
          \<le> \<bar>trackedFields (repeatUpdate n p m) ! i - snapshotFields m ! i\<bar>
        \<and> (trackedFields (repeatUpdate n p m) ! i \<noteq> snapshotFields m ! i \<longrightarrow>
            \<bar>trackedFields (repeatUpdate (Suc n) p m) ! i - snapshotFields m ! i\<bar>
              < \<bar>trackedFields (repeatUpdate n p m) ! i - snapshotFields m ! i\<bar>)
        \<and> (\<lambda>k. trackedFields (repeatUpdate k p m) ! i) \<longlonglongrightarrow> snapshotFields m ! i)"
proof -
  have e: "ema = (\<lambda>prev cur. prev * (1 - 0.3) + cur * 0.3)"
    by (intro ext) (simp add: ema_def EMA_ALPHA_def)
  show ?thesis
    using trackedFields_first[of p m] trackedFields_ema[of p m] later_calls_blend[of p ms m]
      attempts_updateProfile[of p m] attempts_repeat[of _ p m] dist_step repeat_converges
    unfolding e by simp
qed

text \<open>
  The theorem at the fresh profile: a first call with the average snapshot of the tests,
  then a second call with a different snapshot, which is blended 0.7 to 0.3.
\<close>

theorem updateProfile_witness:
  "attempts createProfile = 0
   \<and> attempts (updateProfile createProfile wit_metrics) = 1
   \<and> attempts (updateProfile (updateProfile createProfile wit_metrics) wit_metrics2) = 2
   \<and> trackedFields (updateProfile createProfile wit_metrics) = [100, 0.1, 0.2, 5, 10, 0.5, 30]
   \<and> trackedFields (updateProfile (updateProfile createProfile wit_metrics) wit_metrics2)
       = [130, 0.16, 0.26, 8, 13, 0.56, 36]
   \<and> \<bar>trackedFields (repeatUpdate (Suc 0) createProfile wit_metrics) ! 0 - snapshotFields wit_metrics ! 0\<bar>
       < \<bar>trackedFields (repeatUpdate 0 createProfile wit_metrics) ! 0 - snapshotFields wit_metrics ! 0\<bar>"
proof -
  let ?p1 = "updateProfile createProfile wit_metrics"
  have a: "attempts createProfile = 0" by (simp add: createProfile_def)
  have s: "snapshotFields wit_metrics = [100, 0.1, 0.2, 5, 10, 0.5, 30]"
    by (simp add: snapshotFields_def wit_metrics_def)
  have s2: "snapshotFields wit_metrics2 = [200, 0.3, 0.4, 15, 20, 0.7, 50]"
    by (simp add: snapshotFields_def wit_metrics2_def)
  have ne: "trackedFields (repeatUpdate 0 createProfile wit_metrics) ! 0 \<noteq> snapshotFields wit_metrics ! 0"
    by (simp add: s trackedFields_def createProfile_def)
  have a1: "attempts ?p1 = 1"
    using updateProfile_first_exact_then_ema_converges[of createProfile wit_metrics "[]"] a by simp
  have a2: "attempts (updateProfile ?p1 wit_metrics2) = 2"
    using updateProfile_first_exact_then_ema_converges[of ?p1 wit_metrics2 "[]"] a1 by simp
  have f1: "trackedFields ?p1 = snapshotFields wit_metrics"
    using updateProfile_first_exact_then_ema_converges[of createProfile wit_metrics "[]"] a by blast
  have "trackedFields (updateProfile (foldl updateProfile createProfile [wit_metrics]) wit_metrics2)
        = map2 (\<lambda>prev cur. prev * (1 - 0.3) + cur * 0.3)
            (trackedFields (foldl updateProfile createProfile [wit_metrics])) (snapshotFields wit_metrics2)"
    using updateProfile_first_exact_then_ema_converges[of createProfile wit_metrics2 "[wit_metrics]"] a by blast
  then have f2: "trackedFields (updateProfile ?p1 wit_metrics2) = [130, 0.16, 0.26, 8, 13, 0.56, 36]"
    by (simp add: f1 s s2)
  have d: "\<bar>trackedFields (repeatUpdate (Suc 0) createProfile wit_metrics) ! 0 - snapshotFields wit_metrics ! 0\<bar>
       < \<bar>trackedFields (repeatUpdate 0 createProfile wit_metrics) ! 0 - snapshotFields wit_metrics ! 0\<bar>"
    using updateProfile_first_exact_then_ema_converges[of createProfile wit_metrics "[]"] ne
    by (auto dest!: spec[of _ "0::nat"])
  show ?thesis using a a1 a2 f1 f2 d s by simp
qed

lemma clamp_bounds: "mn \<le> mx \<Longrightarrow> mn \<le> clamp v mn mx \<and> clamp v mn mx \<le> mx"
  by (simp add: clamp_def)

lemma rateLimited_step: "0 \<le> d \<Longrightarrow> \<bar>rateLimited prev target d - prev\<bar> \<le> d"
  by (auto simp: rateLimited_def Let_def sgn_real_def abs_if)

lemma clamp_limited_step:
  assumes "mn \<le> prev" "prev \<le> mx" "0 \<le> d"
  shows "\<bar>clamp (rateLimited prev target d) mn mx - prev\<bar> \<le> d"
  using rateLimited_step[OF assms(3), of prev target] assms(1,2)
  by (auto simp: clamp_def max_def min_def abs_if split: if_splits)

lemma clamps_ordered:
  "rmin CLAMPS_wallDensity \<le> rmax CLAMPS_wallDensity"
  "rmin CLAMPS_branchiness \<le> rmax CLAMPS_branchiness"
  "rmin CLAMPS_corridorWidth \<le> rmax CLAMPS_corridorWidth"
  "rmin CLAMPS_radialDensity \<le> rmax CLAMPS_radialDensity"
  "rmin CLAMPS_decoyRate \<le> rmax CLAMPS_decoyRate"
  "rmin CLAMPS_pathLengthBias \<le> rmax CLAMPS_pathLengthBias"
  by (simp_all add: CLAMPS_wallDensity_def CLAMPS_branchiness_def CLAMPS_corridorWidth_def
        CLAMPS_radialDensity_def CLAMPS_decoyRate_def CLAMPS_pathLengthBias_def)

lemma clamp_limited_reach:
  assumes "mn \<le> mx" "0 \<le> d"
  shows "\<bar>clamp (rateLimited prev target d) mn mx - prev\<bar> \<le> max d (max (mn - prev) (prev - mx))"
  using rateLimited_step[OF assms(2), of prev target] assms(1)
  by (auto simp: clamp_def max_def min_def abs_if split: if_splits)

text \<open>
  C2 (amended). For a profile with at least one attempt, every continuous field of the
  output lies in its clamp range, exitWidth is 1 or 2 (inside its range) and exitOffset is
  -1. A continuous field changes by at most the larger of MAX_DELTA = 0.1 and the distance
  of its previous value to its clamp range; so by at most 0.1 when the previous value was
  inside its clamp range.
\<close>

theorem mapProfileToParams_in_range_rate_limited:
  assumes "attempts profile \<ge> 1"
  shows "list_all inRange (continuousFields (mapProfileToParams profile prev))
    \<and> rmin CLAMPS_exitWidth \<le> real_of_int (exitWidth (mapProfileToParams profile prev))
    \<and> real_of_int (exitWidth (mapProfileToParams profile prev)) \<le> rmax CLAMPS_exitWidth
    \<and> exitOffset (mapProfileToParams profile prev) = -1
    \<and> (\<forall>i < 6. inRange (continuousFields prev ! i) \<longrightarrow>
          \<bar>fst (continuousFields (mapProfileToParams profile prev) ! i) - fst (continuousFields prev ! i)\<bar>
            \<le> MAX_DELTA)
    \<and> (\<forall>i < 6.
          \<bar>fst (continuousFields (mapProfileToParams profile prev) ! i) - fst (continuousFields prev ! i)\<bar>
            \<le> max MAX_DELTA
                 (max (rmin (snd (continuousFields prev ! i)) - fst (continuousFields prev ! i))
                      (fst (continuousFields prev ! i) - rmax (snd (continuousFields prev ! i)))))
    \<and> MAX_DELTA = 0.1"
proof -
  have n: "\<not> attempts profile < 1" using assms by simp
  have r: "list_all inRange (continuousFields (mapProfileToParams profile prev))"
    using n by (simp add: mapProfileToParams_def continuousFields_def inRange_def Let_def
        clamp_bounds clamps_ordered)
  have e: "rmin CLAMPS_exitWidth \<le> real_of_int (exitWidth (mapProfileToParams profile prev))
    \<and> real_of_int (exitWidth (mapProfileToParams profile prev)) \<le> rmax CLAMPS_exitWidth
    \<and> exitOffset (mapProfileToParams profile prev) = -1"
    using n by (simp add: mapProfileToParams_def Let_def CLAMPS_exitWidth_def)
  have md: "0 \<le> MAX_DELTA" by (simp add: MAX_DELTA_def)
  have d: "\<bar>fst (continuousFields (mapProfileToParams profile prev) ! i) - fst (continuousFields prev ! i)\<bar>
            \<le> MAX_DELTA" if i: "i < 6" and ir: "inRange (continuousFields prev ! i)" for i
  proof -
    from i have "i = 0 \<or> i = 1 \<or> i = 2 \<or> i = 3 \<or> i = 4 \<or> i = 5" by arith
    then show ?thesis
      using ir n
      by (elim disjE)
        (simp_all add: mapProfileToParams_def continuousFields_def inRange_def Let_def
          clamp_limited_step[OF _ _ md])
  qed
  have g: "\<bar>fst (continuousFields (mapProfileToParams profile prev) ! i) - fst (continuousFields prev ! i)\<bar>
            \<le> max MAX_DELTA
                 (max (rmin (snd (continuousFields prev ! i)) - fst (continuousFields prev ! i))
                      (fst (continuousFields prev ! i) - rmax (snd (continuousFields prev ! i))))"
    if i: "i < 6" for i
  proof -
    from i have "i = 0 \<or> i = 1 \<or> i = 2 \<or> i = 3 \<or> i = 4 \<or> i = 5" by arith
    then show ?thesis
      using n
      by (elim disjE)
        (simp_all add: mapProfileToParams_def continuousFields_def Let_def
          clamp_limited_reach[OF _ md] clamps_ordered)
  qed
  show ?thesis using r e d g by (simp add: MAX_DELTA_def)
qed

text \<open>
  The theorem at the average player of the tests, from the default parameters and from a
  previous wall density of 0.9, which lies 0.2 above its clamp range.
\<close>

theorem mapProfileToParams_witness:
  "attempts cex_profile \<ge> 1
   \<and> list_all inRange (continuousFields (mapProfileToParams cex_profile defaultGenerationParams))
   \<and> exitOffset (mapProfileToParams cex_profile defaultGenerationParams) = -1
   \<and> \<bar>fst (continuousFields (mapProfileToParams cex_profile defaultGenerationParams) ! 0)
        - fst (continuousFields defaultGenerationParams ! 0)\<bar> \<le> MAX_DELTA
   \<and> \<bar>fst (continuousFields (mapProfileToParams cex_profile cex_params) ! 0)
        - fst (continuousFields cex_params ! 0)\<bar> \<le> 0.2"
proof -
  have a: "attempts cex_profile \<ge> 1" by (simp add: cex_profile_def)
  have r: "inRange (continuousFields defaultGenerationParams ! 0)"
    by (simp add: continuousFields_def inRange_def defaultGenerationParams_def CLAMPS_wallDensity_def)
  have p: "continuousFields cex_params ! 0 = (0.9, CLAMPS_wallDensity)"
    by (simp add: continuousFields_def cex_params_def)
  have "\<bar>fst (continuousFields (mapProfileToParams cex_profile cex_params) ! 0)
        - fst (continuousFields cex_params ! 0)\<bar>
        \<le> max MAX_DELTA
             (max (rmin (snd (continuousFields cex_params ! 0)) - fst (continuousFields cex_params ! 0))
                  (fst (continuousFields cex_params ! 0) - rmax (snd (continuousFields cex_params ! 0))))"
    using mapProfileToParams_in_range_rate_limited[OF a, of cex_params] by simp
  also have "\<dots> = 0.2"
    by (simp add: p MAX_DELTA_def CLAMPS_wallDensity_def)
  finally have q: "\<bar>fst (continuousFields (mapProfileToParams cex_profile cex_params) ! 0)
        - fst (continuousFields cex_params ! 0)\<bar> \<le> 0.2" .
  show ?thesis
    using mapProfileToParams_in_range_rate_limited[OF a, of defaultGenerationParams] a r q
    by simp
qed

text \<open>
  C2 as stated fails: from the default parameters the exit width changes from 2 to 1, a
  change of 1; from a previous wall density 0.9 (outside its clamp range) the wall
  density moves to 0.7, a change of 0.2.
\<close>

theorem mapProfileToParams_rate_limit_counterexample:
  "attempts cex_profile \<ge> 1
   \<and> \<not> \<bar>real_of_int (exitWidth (mapProfileToParams cex_profile defaultGenerationParams))
          - real_of_int (exitWidth defaultGenerationParams)\<bar> \<le> MAX_DELTA
   \<and> \<not> \<bar>wallDensity (mapProfileToParams cex_profile cex_params) - wallDensity cex_params\<bar> \<le> MAX_DELTA"
  by (simp add: cex_profile_def cex_params_def defaultGenerationParams_def mapProfileToParams_def
      Let_def MAX_DELTA_def rateLimited_def clamp_def CLAMPS_wallDensity_def)

section \<open>Theorems: random draws, grid shape and paired walls\<close>

subsection \<open>Random draws stay in range\<close>

lemma rngNext_range: "0 \<le> fst (rngNext st) \<and> fst (rngNext st) < 1"
proof -
  have "\<exists>w :: 32 word. fst (rngNext st) = real_of_int (uint w) / 4294967296"
    unfolding rngNext_def Let_def fst_conv by (rule exI) (rule refl)
  then obtain w :: "32 word" where e: "fst (rngNext st) = real_of_int (uint w) / 4294967296" ..
  have "uint w < 4294967296" using uint_bounded[of w] by simp
  then have "real_of_int (uint w) < real_of_int 4294967296" by (simp only: of_int_less_iff)
  moreover have "0 \<le> uint w" by simp
  then have "0 \<le> real_of_int (uint w)" by (simp only: of_int_0_le_iff)
  ultimately show ?thesis unfolding e by simp
qed

lemma nextInt_range:
  assumes "0 < n"
  shows "0 \<le> fst (nextInt st 0 n) \<and> fst (nextInt st 0 n) < n"
proof -
  define v where "v = fst (rngNext st)"
  have v: "0 \<le> v" "v < 1" using rngNext_range[of st] by (simp_all add: v_def)
  have f: "fst (nextInt st 0 n) = \<lfloor>v * real_of_int n\<rfloor>"
    by (simp add: nextInt_def v_def split_beta)
  have "0 \<le> v * real_of_int n" using v assms by simp
  then have lo: "0 \<le> \<lfloor>v * real_of_int n\<rfloor>" by simp
  have "v * real_of_int n < 1 * real_of_int n" using v assms by (intro mult_strict_right_mono) simp_all
  then have "\<lfloor>v * real_of_int n\<rfloor> < n" by (simp add: floor_less_iff)
  with lo f show ?thesis by simp
qed

lemma nextInt_nat_range:
  assumes "0 < n"
  shows "nat (fst (nextInt st 0 (int n))) < n"
  using nextInt_range[of "int n" st] assms by (simp add: nat_less_iff)

subsection \<open>Grid shape and paired walls\<close>

lemma wfGrid_createEmptyGrid: "wfGrid cfg (createEmptyGrid cfg)"
  by (simp add: wfGrid_def createEmptyGrid_def)

lemma paired_createEmptyGrid: "paired cfg (createEmptyGrid cfg)"
  by (simp add: paired_def createEmptyGrid_def)

lemma getCell_wf:
  "wfGrid cfg g \<Longrightarrow> r < rings cfg \<Longrightarrow> s < slices cfg \<Longrightarrow> getCell g r s = Some (g ! r ! s)"
  by (simp add: wfGrid_def getCell_def)

lemma length_row_update:
  "ra < length g \<Longrightarrow> length (g[r := (g ! r)[s := c]] ! ra) = length (g ! ra)"
  by (cases "ra = r") simp_all

text \<open>Writing a cell of a well-formed grid always succeeds.\<close>

lemma setCell_upd:
  "wfGrid cfg g \<Longrightarrow> r < rings cfg \<Longrightarrow> s < slices cfg \<Longrightarrow> setCell g r s f = Some (upd g r s f)"
  by (simp add: setCell_def wfGrid_def upd_def)

lemma wfGrid_upd [simp]: "wfGrid cfg g \<Longrightarrow> wfGrid cfg (upd g r s f)"
  by (simp add: wfGrid_def upd_def length_row_update)

lemma nth_upd:
  "wfGrid cfg g \<Longrightarrow> r < rings cfg \<Longrightarrow> s < slices cfg \<Longrightarrow>
   upd g r s f ! r' ! s' = (if r' = r \<and> s' = s then f (g ! r ! s) else g ! r' ! s')"
  by (auto simp: wfGrid_def upd_def nth_list_update)

lemma succ_mod_inj:
  fixes s s' n :: nat
  assumes "s < n" "s' < n"
  shows "(Suc s' mod n = Suc s mod n) = (s' = s)"
proof
  assume e: "Suc s' mod n = Suc s mod n"
  have a: "Suc s' mod n = (if Suc s' = n then 0 else Suc s')" using assms by (simp add: mod_Suc)
  have b: "Suc s mod n = (if Suc s = n then 0 else Suc s)" using assms by (simp add: mod_Suc)
  from e show "s' = s" unfolding a b by (cases "Suc s' = n"; cases "Suc s = n") simp_all
qed simp

lemma pred_mod_succ:
  fixes s n :: nat
  assumes "s < n"
  shows "Suc ((s + n - 1) mod n) mod n = s" "(s + n - 1) mod n < n"
proof -
  have n: "0 < n" using assms by simp
  show "(s + n - 1) mod n < n" using n by (rule mod_less_divisor)
  show "Suc ((s + n - 1) mod n) mod n = s"
  proof (cases "s = 0")
    case True
    have "n - 1 < n" using n by arith
    then have "(n - 1) mod n = n - 1" by (rule mod_less)
    moreover have "Suc (n - 1) = n" using n by arith
    moreover have "s + n - 1 = n - 1" using True by arith
    ultimately have "Suc ((s + n - 1) mod n) mod n = n mod n" by (simp only:)
    then show ?thesis using True by (simp only: mod_self)
  next
    case False
    have e: "s + n - 1 = (s - 1) + n" using False by arith
    have l: "s - 1 < n" using assms by arith
    have "(s + n - 1) mod n = ((s - 1) + n) mod n" by (simp only: e)
    also have "\<dots> = (s - 1) mod n" by (rule mod_add_self2)
    also have "\<dots> = s - 1" using l by (rule mod_less)
    finally have "Suc ((s + n - 1) mod n) mod n = Suc (s - 1) mod n" by (simp only:)
    also have "Suc (s - 1) = s" using False by arith
    also have "s mod n = s" using assms by (rule mod_less)
    finally show ?thesis .
  qed
qed

text \<open>The paired clearings and their effect on the invariant.\<close>

lemma pairedD:
  assumes "paired cfg g"
  shows "r < rings cfg \<Longrightarrow> s < slices cfg \<Longrightarrow> wallCW (g ! r ! s) = wallCCW (g ! r ! (Suc s mod slices cfg))"
    and "Suc r < rings cfg \<Longrightarrow> s < slices cfg \<Longrightarrow> wallOuter (g ! r ! s) = wallInner (g ! Suc r ! s)"
  using assms by (simp_all add: paired_def)

lemma pairedI:
  assumes "\<And>r s. r < rings cfg \<Longrightarrow> s < slices cfg \<Longrightarrow> wallCW (g ! r ! s) = wallCCW (g ! r ! (Suc s mod slices cfg))"
    and "\<And>r s. Suc r < rings cfg \<Longrightarrow> s < slices cfg \<Longrightarrow> wallOuter (g ! r ! s) = wallInner (g ! Suc r ! s)"
  shows "paired cfg g"
  using assms by (simp add: paired_def)

lemma paired_clear_tangential:
  assumes wf: "wfGrid cfg g" and p: "paired cfg g" and r: "r < rings cfg" and s: "s < slices cfg"
    and t: "t < slices cfg" and st: "Suc s mod slices cfg = t"
  shows "paired cfg (upd (upd g r s (\<lambda>c. c\<lparr>wallCW := False\<rparr>)) r t (\<lambda>c. c\<lparr>wallCCW := False\<rparr>))"
    and "paired cfg (upd (upd g r t (\<lambda>c. c\<lparr>wallCCW := False\<rparr>)) r s (\<lambda>c. c\<lparr>wallCW := False\<rparr>))"
proof -
  let ?g1 = "upd g r s (\<lambda>c. c\<lparr>wallCW := False\<rparr>)"
  let ?g2 = "upd g r t (\<lambda>c. c\<lparr>wallCCW := False\<rparr>)"
  have wf1: "wfGrid cfg ?g1" "wfGrid cfg ?g2" using wf by simp_all
  have inj: "(Suc s' mod slices cfg = t) = (s' = s)" if "s' < slices cfg" for s'
    using succ_mod_inj[OF s that] st by simp
  show "paired cfg (upd ?g1 r t (\<lambda>c. c\<lparr>wallCCW := False\<rparr>))"
  proof (rule pairedI)
    fix r' s' assume a: "r' < rings cfg" "s' < slices cfg"
    then show "wallCW (upd ?g1 r t (\<lambda>c. c\<lparr>wallCCW := False\<rparr>) ! r' ! s')
        = wallCCW (upd ?g1 r t (\<lambda>c. c\<lparr>wallCCW := False\<rparr>) ! r' ! (Suc s' mod slices cfg))"
      using pairedD(1)[OF p a] by (auto simp: nth_upd[OF wf1(1) r t] nth_upd[OF wf r s] inj)
  next
    fix r' s' assume a: "Suc r' < rings cfg" "s' < slices cfg"
    then show "wallOuter (upd ?g1 r t (\<lambda>c. c\<lparr>wallCCW := False\<rparr>) ! r' ! s')
        = wallInner (upd ?g1 r t (\<lambda>c. c\<lparr>wallCCW := False\<rparr>) ! Suc r' ! s')"
      using pairedD(2)[OF p a] by (auto simp: nth_upd[OF wf1(1) r t] nth_upd[OF wf r s])
  qed
  show "paired cfg (upd ?g2 r s (\<lambda>c. c\<lparr>wallCW := False\<rparr>))"
  proof (rule pairedI)
    fix r' s' assume a: "r' < rings cfg" "s' < slices cfg"
    then show "wallCW (upd ?g2 r s (\<lambda>c. c\<lparr>wallCW := False\<rparr>) ! r' ! s')
        = wallCCW (upd ?g2 r s (\<lambda>c. c\<lparr>wallCW := False\<rparr>) ! r' ! (Suc s' mod slices cfg))"
      using pairedD(1)[OF p a] st by (auto simp: nth_upd[OF wf1(2) r s] nth_upd[OF wf r t] inj)
  next
    fix r' s' assume a: "Suc r' < rings cfg" "s' < slices cfg"
    then show "wallOuter (upd ?g2 r s (\<lambda>c. c\<lparr>wallCW := False\<rparr>) ! r' ! s')
        = wallInner (upd ?g2 r s (\<lambda>c. c\<lparr>wallCW := False\<rparr>) ! Suc r' ! s')"
      using pairedD(2)[OF p a] by (auto simp: nth_upd[OF wf1(2) r s] nth_upd[OF wf r t])
  qed
qed

lemma paired_clear_radial:
  assumes wf: "wfGrid cfg g" and p: "paired cfg g" and r: "Suc r < rings cfg" and s: "s < slices cfg"
  shows "paired cfg (upd (upd g r s (\<lambda>c. c\<lparr>wallOuter := False\<rparr>)) (Suc r) s (\<lambda>c. c\<lparr>wallInner := False\<rparr>))"
    and "paired cfg (upd (upd g (Suc r) s (\<lambda>c. c\<lparr>wallInner := False\<rparr>)) r s (\<lambda>c. c\<lparr>wallOuter := False\<rparr>))"
proof -
  have r0: "r < rings cfg" using r by simp
  let ?g1 = "upd g r s (\<lambda>c. c\<lparr>wallOuter := False\<rparr>)"
  let ?g2 = "upd g (Suc r) s (\<lambda>c. c\<lparr>wallInner := False\<rparr>)"
  have wf1: "wfGrid cfg ?g1" "wfGrid cfg ?g2" using wf by simp_all
  show "paired cfg (upd ?g1 (Suc r) s (\<lambda>c. c\<lparr>wallInner := False\<rparr>))"
  proof (rule pairedI)
    fix r' s' assume a: "r' < rings cfg" "s' < slices cfg"
    then show "wallCW (upd ?g1 (Suc r) s (\<lambda>c. c\<lparr>wallInner := False\<rparr>) ! r' ! s')
        = wallCCW (upd ?g1 (Suc r) s (\<lambda>c. c\<lparr>wallInner := False\<rparr>) ! r' ! (Suc s' mod slices cfg))"
      using pairedD(1)[OF p a] by (auto simp: nth_upd[OF wf1(1) r s] nth_upd[OF wf r0 s])
  next
    fix r' s' assume a: "Suc r' < rings cfg" "s' < slices cfg"
    then show "wallOuter (upd ?g1 (Suc r) s (\<lambda>c. c\<lparr>wallInner := False\<rparr>) ! r' ! s')
        = wallInner (upd ?g1 (Suc r) s (\<lambda>c. c\<lparr>wallInner := False\<rparr>) ! Suc r' ! s')"
      using pairedD(2)[OF p a] by (auto simp: nth_upd[OF wf1(1) r s] nth_upd[OF wf r0 s])
  qed
  show "paired cfg (upd ?g2 r s (\<lambda>c. c\<lparr>wallOuter := False\<rparr>))"
  proof (rule pairedI)
    fix r' s' assume a: "r' < rings cfg" "s' < slices cfg"
    then show "wallCW (upd ?g2 r s (\<lambda>c. c\<lparr>wallOuter := False\<rparr>) ! r' ! s')
        = wallCCW (upd ?g2 r s (\<lambda>c. c\<lparr>wallOuter := False\<rparr>) ! r' ! (Suc s' mod slices cfg))"
      using pairedD(1)[OF p a] by (auto simp: nth_upd[OF wf1(2) r0 s] nth_upd[OF wf r s])
  next
    fix r' s' assume a: "Suc r' < rings cfg" "s' < slices cfg"
    then show "wallOuter (upd ?g2 r s (\<lambda>c. c\<lparr>wallOuter := False\<rparr>) ! r' ! s')
        = wallInner (upd ?g2 r s (\<lambda>c. c\<lparr>wallOuter := False\<rparr>) ! Suc r' ! s')"
      using pairedD(2)[OF p a] by (auto simp: nth_upd[OF wf1(2) r0 s] nth_upd[OF wf r s])
  qed
qed

lemma paired_clear_inner0:
  assumes wf: "wfGrid cfg g" and p: "paired cfg g" and r: "0 < rings cfg" and s: "s < slices cfg"
  shows "paired cfg (upd g 0 s (\<lambda>c. c\<lparr>wallInner := False\<rparr>))"
proof (rule pairedI)
  fix r' s' assume a: "r' < rings cfg" "s' < slices cfg"
  then show "wallCW (upd g 0 s (\<lambda>c. c\<lparr>wallInner := False\<rparr>) ! r' ! s')
        = wallCCW (upd g 0 s (\<lambda>c. c\<lparr>wallInner := False\<rparr>) ! r' ! (Suc s' mod slices cfg))"
    using pairedD(1)[OF p a] by (auto simp: nth_upd[OF wf r s])
next
  fix r' s' assume a: "Suc r' < rings cfg" "s' < slices cfg"
  then show "wallOuter (upd g 0 s (\<lambda>c. c\<lparr>wallInner := False\<rparr>) ! r' ! s')
        = wallInner (upd g 0 s (\<lambda>c. c\<lparr>wallInner := False\<rparr>) ! Suc r' ! s')"
    using pairedD(2)[OF p a] by (auto simp: nth_upd[OF wf r s])
qed

lemma paired_clear_outer_last:
  assumes wf: "wfGrid cfg g" and p: "paired cfg g" and r: "0 < rings cfg" and s: "s < slices cfg"
  shows "paired cfg (upd g (rings cfg - 1) s (\<lambda>c. c\<lparr>wallOuter := False\<rparr>))"
proof -
  define l where "l = rings cfg - 1"
  have rr: "l < rings cfg" using r by (simp add: l_def)
  have nl: "Suc r' < rings cfg \<Longrightarrow> r' \<noteq> l" for r' by (simp add: l_def)
  show ?thesis unfolding l_def[symmetric]
  proof (rule pairedI)
    fix r' s' assume a: "r' < rings cfg" "s' < slices cfg"
    then show "wallCW (upd g l s (\<lambda>c. c\<lparr>wallOuter := False\<rparr>) ! r' ! s')
        = wallCCW (upd g l s (\<lambda>c. c\<lparr>wallOuter := False\<rparr>) ! r' ! (Suc s' mod slices cfg))"
      using pairedD(1)[OF p a] by (auto simp: nth_upd[OF wf rr s])
  next
    fix r' s' assume a: "Suc r' < rings cfg" "s' < slices cfg"
    then show "wallOuter (upd g l s (\<lambda>c. c\<lparr>wallOuter := False\<rparr>) ! r' ! s')
        = wallInner (upd g l s (\<lambda>c. c\<lparr>wallOuter := False\<rparr>) ! Suc r' ! s')"
      using pairedD(2)[OF p a] nl[OF a(1)] by (auto simp: nth_upd[OF wf rr s])
  qed
qed

section \<open>Theorems: generator stages keep the grid well-formed and paired\<close>

lemma forEach_inv:
  assumes "P st" and "\<And>a s. a \<in> set as \<Longrightarrow> P s \<Longrightarrow> \<exists>s'. body a s = Some s' \<and> P s'"
  shows "\<exists>st'. forEach body as st = Some st' \<and> P st'"
  using assms
proof (induction as arbitrary: st)
  case Nil
  then show ?case by simp
next
  case (Cons a as)
  from Cons.prems(2)[of a st] Cons.prems(1) obtain s1 where s1: "body a st = Some s1" "P s1"
    by auto
  from Cons.IH[OF s1(2)] Cons.prems(2) obtain st' where "forEach body as s1 = Some st'" "P st'"
    by auto
  then show ?case using s1 by simp
qed

lemma removeWall_Inner:
  assumes "gridInv cfg g" "0 < r" "r < rings cfg" "s < slices cfg"
  shows "\<exists>g'. removeWall g r s (r - 1) s Inner = Some g' \<and> gridInv cfg g'"
proof -
  obtain q where q: "r = Suc q" using assms(2) by (cases r) simp_all
  have wf: "wfGrid cfg g" and p: "paired cfg g" using assms(1) by (simp_all add: gridInv_def)
  have sq: "Suc q < rings cfg" "q < rings cfg" using assms(3) q by simp_all
  have "removeWall g r s (r - 1) s Inner
      = Some (upd (upd g (Suc q) s (\<lambda>c. c\<lparr>wallInner := False\<rparr>)) q s (\<lambda>c. c\<lparr>wallOuter := False\<rparr>))"
    using wf sq assms(4) by (simp add: removeWall_def q setCell_upd[where cfg=cfg])
  then show ?thesis
    using paired_clear_radial(2)[OF wf p sq(1) assms(4)] wf by (simp add: gridInv_def)
qed

lemma removeWall_Outer:
  assumes "gridInv cfg g" "r < rings cfg - 1" "s < slices cfg"
  shows "\<exists>g'. removeWall g r s (r + 1) s Outer = Some g' \<and> gridInv cfg g'"
proof -
  have wf: "wfGrid cfg g" and p: "paired cfg g" using assms(1) by (simp_all add: gridInv_def)
  have sq: "Suc r < rings cfg" "r < rings cfg" using assms(2) by simp_all
  have "removeWall g r s (r + 1) s Outer
      = Some (upd (upd g r s (\<lambda>c. c\<lparr>wallOuter := False\<rparr>)) (Suc r) s (\<lambda>c. c\<lparr>wallInner := False\<rparr>))"
    using wf sq assms(3) by (simp add: removeWall_def setCell_upd[where cfg=cfg])
  then show ?thesis
    using paired_clear_radial(1)[OF wf p sq(1) assms(3)] wf by (simp add: gridInv_def)
qed

lemma clear_cw_pair:
  assumes "gridInv cfg g" "r < rings cfg" "s < slices cfg"
  shows "\<exists>g1 g'. setCell g r s (\<lambda>c. c\<lparr>wallCW := False\<rparr>) = Some g1
              \<and> setCell g1 r ((s + 1) mod slices cfg) (\<lambda>c. c\<lparr>wallCCW := False\<rparr>) = Some g'
              \<and> gridInv cfg g'"
proof -
  have wf: "wfGrid cfg g" and p: "paired cfg g" using assms(1) by (simp_all add: gridInv_def)
  have t: "Suc s mod slices cfg < slices cfg" using assms(3) by simp
  let ?g1 = "upd g r s (\<lambda>c. c\<lparr>wallCW := False\<rparr>)"
  have "setCell g r s (\<lambda>c. c\<lparr>wallCW := False\<rparr>) = Some ?g1"
    using wf assms(2,3) by (simp add: setCell_upd[where cfg=cfg])
  moreover have "setCell ?g1 r ((s + 1) mod slices cfg) (\<lambda>c. c\<lparr>wallCCW := False\<rparr>)
      = Some (upd ?g1 r (Suc s mod slices cfg) (\<lambda>c. c\<lparr>wallCCW := False\<rparr>))"
    using wf assms(2,3) t by (simp add: setCell_upd[where cfg=cfg])
  moreover have "gridInv cfg (upd ?g1 r (Suc s mod slices cfg) (\<lambda>c. c\<lparr>wallCCW := False\<rparr>))"
    using paired_clear_tangential(1)[OF wf p assms(2,3) t refl] wf by (simp add: gridInv_def)
  ultimately show ?thesis by blast
qed

lemma removeWall_CW:
  assumes "gridInv cfg g" "r < rings cfg" "s < slices cfg"
  shows "\<exists>g'. removeWall g r s r ((s + 1) mod slices cfg) CW = Some g' \<and> gridInv cfg g'"
proof -
  from clear_cw_pair[OF assms] obtain g1 g' where
    "setCell g r s (\<lambda>c. c\<lparr>wallCW := False\<rparr>) = Some g1"
    "setCell g1 r ((s + 1) mod slices cfg) (\<lambda>c. c\<lparr>wallCCW := False\<rparr>) = Some g'"
    "gridInv cfg g'" by blast
  then show ?thesis by (simp add: removeWall_def)
qed

lemma removeWall_CCW:
  assumes "gridInv cfg g" "r < rings cfg" "s < slices cfg"
  shows "\<exists>g'. removeWall g r s r ((s + slices cfg - 1) mod slices cfg) CCW = Some g' \<and> gridInv cfg g'"
proof -
  have wf: "wfGrid cfg g" and p: "paired cfg g" using assms(1) by (simp_all add: gridInv_def)
  define t where "t = (s + slices cfg - 1) mod slices cfg"
  have t: "t < slices cfg" "Suc t mod slices cfg = s"
    using pred_mod_succ[OF assms(3)] by (simp_all add: t_def)
  have "removeWall g r s r t CCW
      = Some (upd (upd g r s (\<lambda>c. c\<lparr>wallCCW := False\<rparr>)) r t (\<lambda>c. c\<lparr>wallCW := False\<rparr>))"
    using wf assms(2,3) t(1) by (simp add: removeWall_def setCell_upd[where cfg=cfg])
  then show ?thesis
    using paired_clear_tangential(2)[OF wf p assms(2) t(1) assms(3) t(2)] wf
    unfolding t_def by (simp add: gridInv_def)
qed

lemma getNeighbors_cases:
  assumes "n \<in> set (getNeighbors r s cfg)"
  shows "(0 < r \<and> n = \<lparr>nring = r - 1, nslice = s, direction = Inner\<rparr>)
       \<or> (r < rings cfg - 1 \<and> n = \<lparr>nring = r + 1, nslice = s, direction = Outer\<rparr>)
       \<or> n = \<lparr>nring = r, nslice = (s + 1) mod slices cfg, direction = CW\<rparr>
       \<or> n = \<lparr>nring = r, nslice = (s + slices cfg - 1) mod slices cfg, direction = CCW\<rparr>"
  using assms by (auto simp: getNeighbors_def split: if_splits)

lemma removeWall_neighbor:
  assumes "gridInv cfg g" "r < rings cfg" "s < slices cfg" "n \<in> set (getNeighbors r s cfg)"
  shows "\<exists>g'. removeWall g r s (nring n) (nslice n) (direction n) = Some g' \<and> gridInv cfg g'"
  using getNeighbors_cases[OF assms(4)]
    removeWall_Inner[OF assms(1) _ assms(2,3)] removeWall_Outer[OF assms(1) _ assms(3)]
    removeWall_CW[OF assms(1,2,3)] removeWall_CCW[OF assms(1,2,3)]
  by (elim disjE conjE) simp_all

lemma neighbor_in_range:
  assumes "r < rings cfg" "s < slices cfg" "n \<in> set (getNeighbors r s cfg)"
  shows "nring n < rings cfg \<and> nslice n < slices cfg"
  using getNeighbors_cases[OF assms(3)] assms(1,2)
  by (elim disjE conjE) simp_all

lemma weightedNeighbors_subset: "set (weightedNeighbors visited ns) \<subseteq> set ns"
  by (auto simp: weightedNeighbors_def split: if_splits)

lemma carveLoop_inv:
  assumes "gridInv cfg g" "\<forall>c \<in> set stack. fst c < rings cfg \<and> snd c < slices cfg"
  shows "\<exists>g' rng'. carveLoop cfg g visited stack rng = Some (g', rng') \<and> gridInv cfg g'"
  using assms
proof (induction cfg g visited stack rng rule: carveLoop.induct)
  case (1 cfg g visited rng)
  then show ?case by (simp add: carveLoop.simps)
next
  case (2 cfg g visited cr cs rest rng)
  define weighted where "weighted = weightedNeighbors visited (getNeighbors cr cs cfg)"
  have cr: "cr < rings cfg" "cs < slices cfg" using "2.prems"(2) by simp_all
  have rest: "\<forall>c \<in> set rest. fst c < rings cfg \<and> snd c < slices cfg" using "2.prems"(2) by simp
  show ?case
  proof (cases "weighted = []")
    case True
    from "2.IH"(1)[OF refl refl True[unfolded weighted_def] "2.prems"(1) rest]
    show ?thesis using True by (simp add: carveLoop.simps weighted_def)
  next
    case False
    define i where "i = fst (nextInt rng 0 (int (length weighted)))"
    define rng' where "rng' = snd (nextInt rng 0 (int (length weighted)))"
    define chosen where "chosen = weighted ! nat i"
    have len: "0 < int (length weighted)" using False by simp
    have ir: "\<not> (i < 0 \<or> int (length weighted) \<le> i)"
      using nextInt_range[OF len, of rng] by (simp add: i_def)
    then have "nat i < length weighted" by linarith
    then have "chosen \<in> set weighted" by (simp add: chosen_def)
    then have cn: "chosen \<in> set (getNeighbors cr cs cfg)"
      using weightedNeighbors_subset by (auto simp: weighted_def)
    from removeWall_neighbor[OF "2.prems"(1) cr cn] obtain g1 where
      g1: "removeWall g cr cs (nring chosen) (nslice chosen) (direction chosen) = Some g1" "gridInv cfg g1"
      by blast
    have st: "\<forall>c \<in> set ((nring chosen, nslice chosen) # (cr, cs) # rest). fst c < rings cfg \<and> snd c < slices cfg"
      using neighbor_in_range[OF cr cn] "2.prems"(2) by simp
    have pr: "(i, rng') = nextInt rng 0 (int (length weighted))" by (simp add: i_def rng'_def)
    from "2.IH"(2)[OF refl refl False[unfolded weighted_def] refl pr[unfolded weighted_def]
        ir[unfolded weighted_def] refl g1(1)[unfolded chosen_def weighted_def] g1(2)
        st[unfolded chosen_def weighted_def]]
    obtain g' rng'' where
      "carveLoop cfg g1 (insert (nring chosen, nslice chosen) visited)
         ((nring chosen, nslice chosen) # (cr, cs) # rest) rng' = Some (g', rng'')" "gridInv cfg g'"
      unfolding chosen_def weighted_def by blast
    then show ?thesis
      using False ir g1(1) pr[symmetric]
      by (simp add: carveLoop.simps weighted_def[symmetric] Let_def chosen_def[symmetric])
  qed
qed

lemma carveSpanningTree_inv:
  assumes "gridInv cfg g" "0 < slices cfg" "0 < rings cfg"
  shows "\<exists>g' rng'. carveSpanningTree g cfg rng = Some (g', rng') \<and> gridInv cfg g'"
proof -
  have "nat (fst (nextInt rng 0 (int (slices cfg)))) < slices cfg"
    using nextInt_nat_range[OF assms(2)] .
  then have "\<forall>c \<in> set [(0::nat, nat (fst (nextInt rng 0 (int (slices cfg)))))]. fst c < rings cfg \<and> snd c < slices cfg"
    using assms(3) by simp
  from carveLoop_inv[OF assms(1) this] show ?thesis
    by (simp add: carveSpanningTree_def split_beta Let_def)
qed

lemma clear_inner0:
  assumes "gridInv cfg g" "0 < rings cfg" "s < slices cfg"
  shows "\<exists>g'. setCell g 0 s (\<lambda>c. c\<lparr>wallInner := False\<rparr>) = Some g' \<and> gridInv cfg g'"
  using assms paired_clear_inner0[of cfg g s]
  by (simp add: gridInv_def setCell_upd[where cfg=cfg])

lemma openEntryHoles_inv:
  assumes "gridInv cfg g" "0 < rings cfg" "0 < slices cfg"
  shows "\<exists>g' rng'. openEntryHoles g cfg rng = Some (g', rng') \<and> gridInv cfg g'"
proof -
  define numHoles where "numHoles = min 3 (max 2 (slices cfg div 4))"
  define spacing where "spacing = slices cfg div numHoles"
  define offset where "offset = fst (nextInt rng 0 (int (slices cfg)))"
  have "\<exists>g'. forEach (\<lambda>i g. let s = (nat offset + i * spacing) mod slices cfg
                                 in setCell g 0 s (\<lambda>c. c\<lparr>wallInner := False\<rparr>))
                  [0..<numHoles] g = Some g' \<and> gridInv cfg g'"
  proof (rule forEach_inv[where P = "gridInv cfg", OF assms(1)])
    fix a s assume "gridInv cfg s"
    then show "\<exists>s'. (let sa = (nat offset + a * spacing) mod slices cfg
                      in setCell s 0 sa (\<lambda>c. c\<lparr>wallInner := False\<rparr>)) = Some s' \<and> gridInv cfg s'"
      using clear_inner0[of cfg s "(nat offset + a * spacing) mod slices cfg"] assms(2,3)
      by (simp add: Let_def)
  qed
  then show ?thesis
    by (auto simp: openEntryHoles_def Let_def split_beta numHoles_def spacing_def offset_def)
qed

lemma extraOpeningStep_inv:
  assumes inv: "gridInv cfg (fst st)" and R: "0 < rings cfg" and S: "0 < slices cfg"
  shows "\<exists>st'. extraOpeningStep cfg st = Some st' \<and> gridInv cfg (fst st')"
proof -
  obtain g rng where st: "st = (g, rng)" by (cases st)
  define r where "r = nat (fst (nextInt rng 0 (int (rings cfg))))"
  define rng1 where "rng1 = snd (nextInt rng 0 (int (rings cfg)))"
  define s where "s = nat (fst (nextInt rng1 0 (int (slices cfg))))"
  have r: "r < rings cfg" unfolding r_def by (rule nextInt_nat_range[OF R])
  have s: "s < slices cfg" unfolding s_def by (rule nextInt_nat_range[OF S])
  have g: "gridInv cfg g" using inv st by simp
  then have wf: "wfGrid cfg g" by (simp add: gridInv_def)
  have len: "r < length g" "s < length (g ! r)" using wf r s by (simp_all add: wfGrid_def)
  have hI: "0 < r \<Longrightarrow> \<exists>g'. removeWall g r s (r - 1) s Inner = Some g' \<and> gridInv cfg g'"
    using removeWall_Inner[OF g _ r s] by simp
  have hO: "r < rings cfg - 1 \<Longrightarrow> \<exists>g'. removeWall g r s (r + 1) s Outer = Some g' \<and> gridInv cfg g'"
    using removeWall_Outer[OF g _ s] by simp
  have hC: "\<exists>g'. removeWall g r s r ((s + 1) mod slices cfg) CW = Some g' \<and> gridInv cfg g'"
    using removeWall_CW[OF g r s] .
  show ?thesis
    unfolding st extraOpeningStep_def Let_def split_beta fst_conv snd_conv
      r_def[symmetric] rng1_def[symmetric] s_def[symmetric]
    using len hI hO hC g
    by (auto split: if_splits)
qed

lemma addExtraOpenings_inv:
  assumes "gridInv cfg g" "0 < rings cfg" "0 < slices cfg"
  shows "\<exists>g' rng'. addExtraOpenings g cfg prm rng = Some (g', rng') \<and> gridInv cfg g'"
proof -
  have "\<exists>st'. forEach (\<lambda>i st. extraOpeningStep cfg st)
          [0..<nat \<lfloor>real (rings cfg * slices cfg) * branchiness prm * 0.5\<rfloor>] (g, rng) = Some st'
        \<and> gridInv cfg (fst st')"
  proof (rule forEach_inv[where P = "\<lambda>st. gridInv cfg (fst st)"])
    show "gridInv cfg (fst (g, rng))" using assms(1) by simp
  next
    fix a and s :: "MazeCell list list \<times> 32 word"
    assume "gridInv cfg (fst s)"
    then show "\<exists>s'. extraOpeningStep cfg s = Some s' \<and> gridInv cfg (fst s')"
      using assms(2,3) by (rule extraOpeningStep_inv)
  qed
  then show ?thesis by (auto simp: addExtraOpenings_def Let_def)
qed

lemma capRadialStep_inv:
  assumes inv: "gridInv cfg (fst st)" and r: "r < rings cfg" and s: "s < slices cfg"
  shows "\<exists>st'. capRadialStep cfg prm r s st = Some st' \<and> gridInv cfg (fst st')"
proof -
  obtain g rng where st: "st = (g, rng)" by (cases st)
  have g: "gridInv cfg g" using inv st by simp
  then have wf: "wfGrid cfg g" by (simp add: gridInv_def)
  have gc: "getCell g r s = Some (g ! r ! s)" using getCell_wf[OF wf r s] .
  from clear_cw_pair[OF g r s] obtain g1 g' where
    c: "setCell g r s (\<lambda>c. c\<lparr>wallCW := False\<rparr>) = Some g1"
    "setCell g1 r ((s + 1) mod slices cfg) (\<lambda>c. c\<lparr>wallCCW := False\<rparr>) = Some g'"
    "gridInv cfg g'" by blast
  show ?thesis
    unfolding st capRadialStep_def Let_def split_beta fst_conv snd_conv gc
    using c g by simp
qed

lemma capRadialWalls_inv:
  assumes "gridInv cfg g"
  shows "\<exists>g' rng'. capRadialWalls g cfg prm rng = Some (g', rng') \<and> gridInv cfg g'"
proof -
  have "\<exists>st'. forEach (\<lambda>r st. forEach (\<lambda>s st. capRadialStep cfg prm r s st) [0..<slices cfg] st)
       [0..<rings cfg] (g, rng) = Some st' \<and> gridInv cfg (fst st')"
  proof (rule forEach_inv[where P = "\<lambda>st. gridInv cfg (fst st)"])
    show "gridInv cfg (fst (g, rng))" using assms by simp
  next
    fix r and st :: "MazeCell list list \<times> 32 word"
    assume r: "r \<in> set [0..<rings cfg]" and i: "gridInv cfg (fst st)"
    show "\<exists>s'. forEach (\<lambda>s st. capRadialStep cfg prm r s st) [0..<slices cfg] st = Some s'
            \<and> gridInv cfg (fst s')"
    proof (rule forEach_inv[where P = "\<lambda>st. gridInv cfg (fst st)", OF i])
      fix a and s :: "MazeCell list list \<times> 32 word"
      assume "a \<in> set [0..<slices cfg]" "gridInv cfg (fst s)"
      then show "\<exists>s'. capRadialStep cfg prm r a s = Some s' \<and> gridInv cfg (fst s')"
        using r by (intro capRadialStep_inv) simp_all
    qed
  qed
  then show ?thesis by (auto simp: capRadialWalls_def)
qed


text \<open>Clearing outer walls of the outermost ring, as placeExit does.\<close>

lemma clear_outer_last:
  assumes "gridInv cfg g" "0 < rings cfg" "s < slices cfg"
  shows "\<exists>g'. setCell g (rings cfg - 1) s (\<lambda>c. c\<lparr>wallOuter := False\<rparr>) = Some g' \<and> gridInv cfg g'
      \<and> \<not> wallOuter (g' ! (rings cfg - 1) ! s)
      \<and> (\<forall>s'. \<not> wallOuter (g ! (rings cfg - 1) ! s') \<longrightarrow> \<not> wallOuter (g' ! (rings cfg - 1) ! s'))"
proof -
  have wf: "wfGrid cfg g" and p: "paired cfg g" using assms(1) by (simp_all add: gridInv_def)
  define l where "l = rings cfg - 1"
  have l: "l < rings cfg" using assms(2) by (simp add: l_def)
  let ?g' = "upd g l s (\<lambda>c. c\<lparr>wallOuter := False\<rparr>)"
  have a: "setCell g l s (\<lambda>c. c\<lparr>wallOuter := False\<rparr>) = Some ?g'"
    using setCell_upd[OF wf l assms(3)] .
  have "paired cfg ?g'"
    using paired_clear_outer_last[OF wf p assms(2,3)] unfolding l_def .
  then have b: "gridInv cfg ?g'" using wf by (simp add: gridInv_def)
  have c: "\<not> wallOuter (?g' ! l ! s)" by (simp add: nth_upd[OF wf l assms(3)])
  have d: "\<forall>s'. \<not> wallOuter (g ! l ! s') \<longrightarrow> \<not> wallOuter (?g' ! l ! s')"
    by (simp add: nth_upd[OF wf l assms(3)])
  show ?thesis using a b c d unfolding l_def by blast
qed

lemma placeExit_loop:
  assumes "gridInv cfg g" "0 < rings cfg" "0 < slices cfg"
  shows "\<exists>g'. forEach (\<lambda>i g. let s = (start + i) mod slices cfg
                                 in setCell g (rings cfg - 1) s (\<lambda>c. c\<lparr>wallOuter := False\<rparr>))
                  [0..<k] g = Some g' \<and> gridInv cfg g'
          \<and> (\<forall>i < k. \<not> wallOuter (g' ! (rings cfg - 1) ! ((start + i) mod slices cfg)))"
proof (induction k)
  case 0
  then show ?case using assms(1) by simp
next
  case (Suc k)
  then obtain g1 where g1: "forEach (\<lambda>i g. let s = (start + i) mod slices cfg
                                 in setCell g (rings cfg - 1) s (\<lambda>c. c\<lparr>wallOuter := False\<rparr>))
                  [0..<k] g = Some g1" "gridInv cfg g1"
     "\<forall>i < k. \<not> wallOuter (g1 ! (rings cfg - 1) ! ((start + i) mod slices cfg))"
    by blast
  have s: "(start + k) mod slices cfg < slices cfg" using assms(3) by simp
  from clear_outer_last[OF g1(2) assms(2) s] obtain g2 where
    g2: "setCell g1 (rings cfg - 1) ((start + k) mod slices cfg) (\<lambda>c. c\<lparr>wallOuter := False\<rparr>) = Some g2"
      "gridInv cfg g2" "\<not> wallOuter (g2 ! (rings cfg - 1) ! ((start + k) mod slices cfg))"
      "\<forall>s'. \<not> wallOuter (g1 ! (rings cfg - 1) ! s') \<longrightarrow> \<not> wallOuter (g2 ! (rings cfg - 1) ! s')"
    by blast
  have fe: "forEach body (xs @ [a]) st = (case forEach body xs st of None \<Rightarrow> None | Some st' \<Rightarrow> body a st')"
    for body :: "nat \<Rightarrow> MazeCell list list \<Rightarrow> MazeCell list list option" and xs a st
    by (induction xs arbitrary: st) (auto split: option.splits)
  have "forEach (\<lambda>i g. let s = (start + i) mod slices cfg
                                 in setCell g (rings cfg - 1) s (\<lambda>c. c\<lparr>wallOuter := False\<rparr>))
                  [0..<Suc k] g = Some g2"
    using g1(1) g2(1) by (simp add: fe Let_def)
  moreover have "\<forall>i < Suc k. \<not> wallOuter (g2 ! (rings cfg - 1) ! ((start + i) mod slices cfg))"
    using g1(3) g2(3,4) by (auto simp: less_Suc_eq)
  ultimately show ?case using g2(2) by blast
qed

lemma placeExit_inv:
  assumes "gridInv cfg g" "0 < rings cfg" "0 < slices cfg"
  shows "\<exists>g' ex rng'. placeExit g cfg prm rng = Some (g', ex, rng') \<and> gridInv cfg g'
      \<and> sliceStart ex < slices cfg \<and> sliceCount ex = min (exitWidth prm) (int (slices cfg))
      \<and> exitOpen cfg ex g'"
proof -
  define start where "start = nat (fst (if exitOffset prm \<ge> 0
                          then (exitOffset prm mod int (slices cfg), rng)
                          else nextInt rng 0 (int (slices cfg))))"
  define cnt where "cnt = min (exitWidth prm) (int (slices cfg))"
  have st: "start < slices cfg"
  proof (cases "exitOffset prm \<ge> 0")
    case True
    have "exitOffset prm mod int (slices cfg) < int (slices cfg)" using assms(3) by simp
    moreover have "0 \<le> exitOffset prm mod int (slices cfg)" using assms(3) by simp
    ultimately show ?thesis using True by (simp add: start_def nat_less_iff)
  next
    case False
    then show ?thesis using nextInt_nat_range[OF assms(3), of rng] by (simp add: start_def)
  qed
  from placeExit_loop[OF assms, of start "nat cnt"] obtain g' where
    g': "forEach (\<lambda>i g. let s = (start + i) mod slices cfg
                                 in setCell g (rings cfg - 1) s (\<lambda>c. c\<lparr>wallOuter := False\<rparr>))
                  [0..<nat cnt] g = Some g'" "gridInv cfg g'"
     "\<forall>i < nat cnt. \<not> wallOuter (g' ! (rings cfg - 1) ! ((start + i) mod slices cfg))"
    by blast
  show ?thesis
    using g' st
    by (simp add: placeExit_def Let_def split_beta start_def[symmetric] cnt_def[symmetric] exitOpen_def)
qed

lemma ensurePathStep_inv:
  assumes "gridInv cfg g" "Suc r < rings cfg" "t < slices cfg"
  shows "\<exists>g'. ensurePathStep t r g = Some g' \<and> gridInv cfg g'
      \<and> (\<forall>s'. \<not> wallOuter (g ! (rings cfg - 1) ! s') \<longrightarrow> \<not> wallOuter (g' ! (rings cfg - 1) ! s'))"
proof -
  have wf: "wfGrid cfg g" and p: "paired cfg g" using assms(1) by (simp_all add: gridInv_def)
  have r0: "r < rings cfg" using assms(2) by simp
  have gc: "getCell g r t = Some (g ! r ! t)" "getCell g (r + 1) t = Some (g ! Suc r ! t)"
    using getCell_wf[OF wf r0 assms(3)] getCell_wf[OF wf assms(2,3)] by simp_all
  let ?g1 = "upd g r t (\<lambda>c. c\<lparr>wallOuter := False\<rparr>)"
  let ?g2 = "upd ?g1 (Suc r) t (\<lambda>c. c\<lparr>wallInner := False\<rparr>)"
  have wf1: "wfGrid cfg ?g1" using wf by simp
  have s1: "setCell g r t (\<lambda>c. c\<lparr>wallOuter := False\<rparr>) = Some ?g1"
    using wf r0 assms(3) by (simp add: setCell_upd[where cfg=cfg])
  have s2: "setCell ?g1 (r + 1) t (\<lambda>c. c\<lparr>wallInner := False\<rparr>) = Some ?g2"
    using wf1 assms(2,3) by (simp add: setCell_upd[where cfg=cfg])
  have i2: "gridInv cfg ?g2"
    using paired_clear_radial(1)[OF wf p assms(2,3)] wf by (simp add: gridInv_def)
  have m: "\<not> wallOuter (g ! q ! s') \<longrightarrow> \<not> wallOuter (?g2 ! q ! s')" for q s'
    by (simp add: nth_upd[OF wf1 assms(2,3)] nth_upd[OF wf r0 assms(3)])
  show ?thesis
    unfolding ensurePathStep_def gc using s1 s2 i2 m assms(1) by simp
qed

lemma ensurePathToExit_inv:
  assumes "gridInv cfg g" "sliceStart ex < slices cfg" "exitOpen cfg ex g"
  shows "\<exists>g'. ensurePathToExit g cfg ex = Some g' \<and> gridInv cfg g' \<and> exitOpen cfg ex g'"
proof -
  have "\<exists>g'. forEach (ensurePathStep (sliceStart ex)) [0..<rings cfg - 1] g = Some g'
      \<and> (gridInv cfg g' \<and> exitOpen cfg ex g')"
  proof (rule forEach_inv[where P = "\<lambda>g. gridInv cfg g \<and> exitOpen cfg ex g"])
    show "gridInv cfg g \<and> exitOpen cfg ex g" using assms by simp
  next
    fix r g1 assume r: "r \<in> set [0..<rings cfg - 1]" and i: "gridInv cfg g1 \<and> exitOpen cfg ex g1"
    from r have "Suc r < rings cfg" by simp
    from ensurePathStep_inv[OF conjunct1[OF i] this assms(2)] i
    show "\<exists>s'. ensurePathStep (sliceStart ex) r g1 = Some s' \<and> gridInv cfg s' \<and> exitOpen cfg ex s'"
      by (auto simp: exitOpen_def)
  qed
  then show ?thesis by (simp add: ensurePathToExit_def)
qed

section \<open>Theorems: the breadth-first search\<close>

subsection \<open>Parent pointers\<close>

lemma parentOrdered_append:
  "parentOrdered n (pre @ vis) \<Longrightarrow> parentOrdered n vis \<and> fst ` set pre \<inter> fst ` set vis = {}"
proof (induction pre)
  case Nil
  then show ?case by simp
next
  case (Cons e pre)
  obtain k p where e: "e = (k, p)" by (cases e)
  from Cons.prems have a: "k \<notin> fst ` set (pre @ vis)" and b: "parentOrdered n (pre @ vis)"
    by (simp_all add: e)
  from a have "k \<notin> fst ` set vis" by (simp add: image_Un)
  with Cons.IH[OF b] show ?case by (simp add: e)
qed

lemma parentOrdered_snoc:
  assumes "parentOrdered n (pre @ (k, p) # rest)"
  shows "parentOrdered n ((pre @ [(k, p)]) @ rest)"
  using assms by simp

lemma map_of_fresh_prefix:
  assumes "k \<notin> fst ` set pre"
  shows "map_of (pre @ vis) k = map_of vis k"
  using assms by (induction pre) auto

lemma reconstructPath_ordered:
  assumes "parentOrdered n (pre @ vis)" "k \<in> fst ` set vis" "0 < n"
  shows "\<exists>p. reconstructPath n (pre @ vis) (Some k) acc = Some (p @ acc)
           \<and> p \<noteq> [] \<and> fst (hd p) = 0 \<and> last p = (k div n, k mod n)"
  using assms(1,2)
proof (induction vis arbitrary: pre k acc)
  case Nil
  then show ?case by simp
next
  case (Cons e rest)
  obtain k0 p0 where e: "e = (k0, p0)" by (cases e)
  from parentOrdered_append[OF Cons.prems(1)]
  have po: "parentOrdered n ((k0, p0) # rest)" and dj: "fst ` set pre \<inter> fst ` set ((k0, p0) # rest) = {}"
    by (simp_all add: e)
  have ord': "parentOrdered n ((pre @ [(k0, p0)]) @ rest)" using Cons.prems(1) by (simp add: e)
  have eq: "(pre @ [(k0, p0)]) @ rest = pre @ e # rest" by (simp add: e)
  show ?case
  proof (cases "k = k0")
    case True
    have "k0 \<notin> fst ` set pre" using dj by auto
    then have "map_of (pre @ e # rest) k0 = map_of (e # rest) k0"
      by (rule map_of_fresh_prefix)
    then have look: "map_of (pre @ e # rest) k0 = Some p0"
      by (simp add: e)
    show ?thesis
    proof (cases p0)
      case None
      then have "k0 < n" using po by simp
      then have "k0 div n = 0" by simp
      moreover have "reconstructPath n (pre @ e # rest) (Some k0) acc
          = reconstructPath n (pre @ e # rest) None ((k0 div n, k0 mod n) # acc)"
        by (subst reconstructPath.simps) (simp only: option.case look None)
      moreover have "reconstructPath n (pre @ e # rest) None ((k0 div n, k0 mod n) # acc)
          = Some ((k0 div n, k0 mod n) # acc)"
        by (subst reconstructPath.simps) simp
      ultimately show ?thesis using True
        by (intro exI[of _ "[(k0 div n, k0 mod n)]"]) simp
    next
      case (Some q)
      then have q: "q \<in> fst ` set rest" using po by simp
      from Cons.IH[OF ord' q, of "(k0 div n, k0 mod n) # acc"] obtain p' where
        p': "reconstructPath n (pre @ e # rest) (Some q) ((k0 div n, k0 mod n) # acc)
              = Some (p' @ (k0 div n, k0 mod n) # acc)" "p' \<noteq> []" "fst (hd p') = 0"
        unfolding eq by blast
      have "reconstructPath n (pre @ e # rest) (Some k0) acc
            = reconstructPath n (pre @ e # rest) (Some q) ((k0 div n, k0 mod n) # acc)"
        by (subst reconstructPath.simps) (simp only: option.case look Some)
      then show ?thesis using p' True
        by (intro exI[of _ "p' @ [(k0 div n, k0 mod n)]"]) simp
    qed
  next
    case False
    then have "k \<in> fst ` set rest" using Cons.prems(2) by (auto simp: e)
    from Cons.IH[OF ord' this, of acc] show ?thesis unfolding eq .
  qed
qed

subsection \<open>The search state\<close>

lemma visitNeighbor_inv:
  assumes "searchInv n st" "ck \<in> fst ` set (fst st)" "s' < n"
  shows "searchInv n (visitNeighbor (key n r' s') ck (r', s') st)
       \<and> ck \<in> fst ` set (fst (visitNeighbor (key n r' s') ck (r', s') st))"
proof (cases "map_of (fst st) (key n r' s') \<noteq> None")
  case True
  then show ?thesis using assms by (simp add: visitNeighbor_def split_beta)
next
  case False
  then have nv: "key n r' s' \<notin> fst ` set (fst st)" by (simp add: map_of_eq_None_iff)
  have v: "visitNeighbor (key n r' s') ck (r', s') st
      = ((key n r' s', Some ck) # fst st, snd st @ [(r', s')])"
    using False by (simp add: visitNeighbor_def split_beta)
  show ?thesis unfolding v using assms nv by (auto simp: searchInv_def)
qed

lemma visitNeighbor_grid:
  assumes "queueInGrid cfg st" "r' < rings cfg" "s' < slices cfg"
  shows "queueInGrid cfg (visitNeighbor nk ck (r', s') st)"
  using assms by (auto simp: queueInGrid_def visitNeighbor_def split_beta)

lemma exploreNeighbors_inv:
  assumes i: "searchInv (slices cfg) st" and ck: "key (slices cfg) cr cs \<in> fst ` set (fst st)"
    and cs: "cs < slices cfg"
  shows "searchInv (slices cfg) (exploreNeighbors cfg cell cr cs st)"
proof -
  let ?n = "slices cfg"
  let ?ck = "key ?n cr cs"
  have n: "0 < ?n" using cs by simp
  define st1 where "st1 = (if cr > 0 \<and> \<not> wallInner cell
                then visitNeighbor (key ?n (cr - 1) cs) ?ck (cr - 1, cs) st else st)"
  define st2 where "st2 = (if cr < rings cfg - 1 \<and> \<not> wallOuter cell
                then visitNeighbor (key ?n (cr + 1) cs) ?ck (cr + 1, cs) st1 else st1)"
  define st3 where "st3 = (if \<not> wallCW cell
                then visitNeighbor (key ?n cr ((cs + 1) mod ?n)) ?ck (cr, (cs + 1) mod ?n) st2 else st2)"
  define st4 where "st4 = (if \<not> wallCCW cell
                then visitNeighbor (key ?n cr ((cs + ?n - 1) mod ?n)) ?ck (cr, (cs + ?n - 1) mod ?n) st3 else st3)"
  have e: "exploreNeighbors cfg cell cr cs st = st4"
    by (simp only: exploreNeighbors_def Let_def st1_def st2_def st3_def st4_def)
  have m1: "(cs + 1) mod ?n < ?n" and m2: "(cs + ?n - 1) mod ?n < ?n" using n by simp_all
  have 1: "searchInv ?n st1 \<and> ?ck \<in> fst ` set (fst st1)"
    unfolding st1_def using visitNeighbor_inv[OF i ck cs] i ck by simp
  have 2: "searchInv ?n st2 \<and> ?ck \<in> fst ` set (fst st2)"
    unfolding st2_def using visitNeighbor_inv[OF conjunct1[OF 1] conjunct2[OF 1] cs] 1 by simp
  have 3: "searchInv ?n st3 \<and> ?ck \<in> fst ` set (fst st3)"
    unfolding st3_def using visitNeighbor_inv[OF conjunct1[OF 2] conjunct2[OF 2] m1] 2 by simp
  have 4: "searchInv ?n st4 \<and> ?ck \<in> fst ` set (fst st4)"
    unfolding st4_def using visitNeighbor_inv[OF conjunct1[OF 3] conjunct2[OF 3] m2] 3 by simp
  show ?thesis unfolding e using 4 by simp
qed

lemma exploreNeighbors_grid:
  assumes i: "queueInGrid cfg st" and cr: "cr < rings cfg" and cs: "cs < slices cfg"
  shows "queueInGrid cfg (exploreNeighbors cfg cell cr cs st)"
proof -
  let ?n = "slices cfg"
  let ?ck = "key ?n cr cs"
  have n: "0 < ?n" using cs by simp
  define st1 where "st1 = (if cr > 0 \<and> \<not> wallInner cell
                then visitNeighbor (key ?n (cr - 1) cs) ?ck (cr - 1, cs) st else st)"
  define st2 where "st2 = (if cr < rings cfg - 1 \<and> \<not> wallOuter cell
                then visitNeighbor (key ?n (cr + 1) cs) ?ck (cr + 1, cs) st1 else st1)"
  define st3 where "st3 = (if \<not> wallCW cell
                then visitNeighbor (key ?n cr ((cs + 1) mod ?n)) ?ck (cr, (cs + 1) mod ?n) st2 else st2)"
  define st4 where "st4 = (if \<not> wallCCW cell
                then visitNeighbor (key ?n cr ((cs + ?n - 1) mod ?n)) ?ck (cr, (cs + ?n - 1) mod ?n) st3 else st3)"
  have e: "exploreNeighbors cfg cell cr cs st = st4"
    by (simp only: exploreNeighbors_def Let_def st1_def st2_def st3_def st4_def)
  have m1: "(cs + 1) mod ?n < ?n" and m2: "(cs + ?n - 1) mod ?n < ?n" using n by simp_all
  have r1: "cr - 1 < rings cfg" using cr by simp
  have 1: "queueInGrid cfg st1"
    unfolding st1_def using visitNeighbor_grid[OF i r1 cs] i by simp
  have 2: "queueInGrid cfg st2"
  proof (cases "cr < rings cfg - 1 \<and> \<not> wallOuter cell")
    case True
    then have "cr + 1 < rings cfg" by linarith
    from visitNeighbor_grid[OF 1 this cs] True show ?thesis by (simp add: st2_def)
  next
    case False
    then have "st2 = st1" unfolding st2_def by (rule if_not_P)
    then show ?thesis using 1 by (simp only:)
  qed
  have 3: "queueInGrid cfg st3"
    unfolding st3_def using visitNeighbor_grid[OF 2 cr m1] 2 by simp
  have 4: "queueInGrid cfg st4"
    unfolding st4_def using visitNeighbor_grid[OF 3 cr m2] 3 by simp
  show ?thesis unfolding e using 4 .
qed

lemma key_decode:
  assumes "s < n"
  shows "key n r s div n = r" "key n r s mod n = s"
  using assms by (simp_all add: key_def)

lemma key_inj:
  assumes "key n r s = key n r' s'" "s < n" "s' < n"
  shows "r = r' \<and> s = s'"
  using key_decode[OF assms(2), of r] key_decode[OF assms(3), of r'] assms(1) by simp

lemma bfsLoop_props:
  assumes "searchInv (slices cfg) (visited, queue)" "0 < slices cfg"
    and "bfsLoop g cfg targets visited queue = Some res"
  shows "(solvable res \<longrightarrow>
            path res \<noteq> [] \<and> fst (hd (path res)) = 0
          \<and> (\<exists>cell. getCell g (fst (last (path res))) (snd (last (path res))) = Some cell \<and> \<not> wallOuter cell)
          \<and> key (slices cfg) (fst (last (path res))) (snd (last (path res))) \<in> targets
          \<and> snd (last (path res)) < slices cfg)
       \<and> (\<not> solvable res \<longrightarrow> path res = [])"
  using assms
proof (induction g cfg targets visited queue rule: bfsLoop.induct)
  case (1 g cfg targets visited)
  then show ?case by (auto simp: bfsLoop.simps)
next
  case (2 g cfg targets visited cr cs rest)
  let ?n = "slices cfg"
  let ?ck = "key ?n cr cs"
  from "2.prems"(1) have cs: "cs < ?n" and ck: "?ck \<in> fst ` set visited"
    and po: "parentOrdered ?n visited"
    and restInv: "searchInv ?n (visited, rest)"
    by (simp_all add: searchInv_def)
  from "2.prems"(3) obtain cell where cell: "getCell g cr cs = Some cell"
    by (cases "getCell g cr cs") (simp_all add: bfsLoop.simps)
  show ?case
  proof (cases "?ck \<in> targets \<and> \<not> wallOuter cell")
    case True
    from reconstructPath_ordered[of ?n "[]" visited ?ck "[]"] po ck "2.prems"(2)
    obtain p where p: "reconstructPath ?n visited (Some ?ck) [] = Some p" "p \<noteq> []" "fst (hd p) = 0"
      "last p = (?ck div ?n, ?ck mod ?n)" by auto
    have lp: "last p = (cr, cs)" using p(4) key_decode[OF cs, of cr] by simp
    have "res = \<lparr>solvable = True, path = p\<rparr>"
      using "2.prems"(3) cell True p(1) by (simp add: bfsLoop.simps)
    then show ?thesis using p(2,3) lp cell True cs by simp
  next
    case False
    define st' where "st' = exploreNeighbors cfg cell cr cs (visited, rest)"
    have inv': "searchInv ?n (fst st', snd st')"
      unfolding st'_def using exploreNeighbors_inv[OF restInv _ cs, where cell = cell and cr = cr] ck by simp
    have run: "bfsLoop g cfg targets (fst st') (snd st') = Some res"
      using "2.prems"(3) cell False by (simp add: bfsLoop.simps st'_def split_beta)
    have pe: "(fst st', snd st') = st'" by simp
    from "2.IH"[OF refl cell False st'_def pe inv' "2.prems"(2) run]
    show ?thesis .
  qed
qed

lemma bfsLoop_total:
  assumes "searchInv (slices cfg) (visited, queue)" "queueInGrid cfg (visited, queue)"
    and "wfGrid cfg g" "0 < slices cfg"
  shows "\<exists>res. bfsLoop g cfg targets visited queue = Some res"
  using assms
proof (induction g cfg targets visited queue rule: bfsLoop.induct)
  case (1 g cfg targets visited)
  then show ?case by (simp add: bfsLoop.simps)
next
  case (2 g cfg targets visited cr cs rest)
  let ?n = "slices cfg"
  let ?ck = "key ?n cr cs"
  from "2.prems"(1) have cs: "cs < ?n" and ck: "?ck \<in> fst ` set visited"
    and po: "parentOrdered ?n visited"
    and restInv: "searchInv ?n (visited, rest)"
    by (simp_all add: searchInv_def)
  from "2.prems"(2) have cr: "cr < rings cfg" and restGrid: "queueInGrid cfg (visited, rest)"
    by (simp_all add: queueInGrid_def)
  have cell: "getCell g cr cs = Some (g ! cr ! cs)"
    using getCell_wf[OF "2.prems"(3) cr cs] .
  show ?case
  proof (cases "?ck \<in> targets \<and> \<not> wallOuter (g ! cr ! cs)")
    case True
    from reconstructPath_ordered[of ?n "[]" visited ?ck "[]"] po ck "2.prems"(4)
    obtain p where p: "reconstructPath ?n visited (Some ?ck) [] = Some p" by auto
    show ?thesis using cell True p by (simp add: bfsLoop.simps)
  next
    case False
    define st' where "st' = exploreNeighbors cfg (g ! cr ! cs) cr cs (visited, rest)"
    have inv': "searchInv ?n (fst st', snd st')"
      unfolding st'_def using exploreNeighbors_inv[OF restInv _ cs, where cell = "g ! cr ! cs" and cr = cr] ck by simp
    have grid': "queueInGrid cfg (fst st', snd st')"
      unfolding st'_def using exploreNeighbors_grid[OF restGrid cr cs] by simp
    have pe: "(fst st', snd st') = st'" by simp
    have step: "bfsLoop g cfg targets visited ((cr, cs) # rest)
        = bfsLoop g cfg targets (fst st') (snd st')"
      by (subst bfsLoop.simps)
        (simp only: Let_def cell option.case if_not_P[OF False] st'_def split_beta)
    from "2.IH"[OF refl cell False st'_def pe inv' grid' "2.prems"(3,4)]
    show ?thesis unfolding step .
  qed
qed

text \<open>The state before the search loop: every ring-0 cell is marked and queued.\<close>

lemma initial_state:
  assumes "k \<le> n"
  shows "\<exists>v q. fold (\<lambda>s (visited, queue). ((key n 0 s, None) # visited, queue @ [(0::nat, s)])) [0..<k] ([], [])
            = (v, q)
          \<and> parentOrdered n v \<and> fst ` set v = {0..<k} \<and> set q = (\<lambda>s. (0::nat, s)) ` {0..<k}"
  using assms
proof (induction k)
  case 0
  then show ?case by simp
next
  case (Suc k)
  then obtain v q where
    f: "fold (\<lambda>s (visited, queue). ((key n 0 s, None) # visited, queue @ [(0::nat, s)])) [0..<k] ([], []) = (v, q)"
    and i: "parentOrdered n v" "fst ` set v = {0..<k}" "set q = (\<lambda>s. (0::nat, s)) ` {0..<k}"
    by auto
  have k0: "key n 0 k = k" by (simp add: key_def)
  have "fold (\<lambda>s (visited, queue). ((key n 0 s, None) # visited, queue @ [(0::nat, s)])) [0..<Suc k] ([], [])
      = ((k, None) # v, q @ [(0::nat, k)])"
    using f by (simp add: k0)
  moreover have "parentOrdered n ((k, None) # v)" using i Suc.prems by simp
  moreover have "fst ` set ((k, None) # v) = {0..<Suc k}" using i by auto
  moreover have "set (q @ [(0::nat, k)]) = (\<lambda>s. (0::nat, s)) ` {0..<Suc k}" using i by auto
  ultimately show ?case by blast
qed

lemma solveMaze_unfold:
  "\<exists>v q. solveMaze g cfg ex = bfsLoop g cfg (exitCells cfg ex) v q
     \<and> searchInv (slices cfg) (v, q) \<and> (0 < rings cfg \<longrightarrow> queueInGrid cfg (v, q))"
proof -
  from initial_state[OF order_refl, of "slices cfg"] obtain v q where
    f: "fold (\<lambda>s (visited, queue). ((key (slices cfg) 0 s, None) # visited, queue @ [(0::nat, s)]))
          [0..<slices cfg] ([], []) = (v, q)"
    and i: "parentOrdered (slices cfg) v" "fst ` set v = {0..<slices cfg}"
      "set q = (\<lambda>s. (0::nat, s)) ` {0..<slices cfg}"
    by blast
  have a: "solveMaze g cfg ex = bfsLoop g cfg (exitCells cfg ex) v q"
    by (simp add: solveMaze_def Let_def f)
  have b: "searchInv (slices cfg) (v, q)"
    using i by (auto simp: searchInv_def key_def)
  have c: "0 < rings cfg \<longrightarrow> queueInGrid cfg (v, q)"
    using i by (auto simp: queueInGrid_def)
  show ?thesis
    by (rule exI[of _ v], rule exI[of _ q], intro conjI) (rule a, rule b, rule c)
qed

lemma solveMaze_total:
  assumes "wfGrid cfg g" "0 < rings cfg" "0 < slices cfg"
  shows "\<exists>res. solveMaze g cfg ex = Some res"
proof -
  from solveMaze_unfold[of g cfg ex] assms(2) obtain v q where
    "solveMaze g cfg ex = bfsLoop g cfg (exitCells cfg ex) v q"
    "searchInv (slices cfg) (v, q)" "queueInGrid cfg (v, q)" by blast
  then show ?thesis using bfsLoop_total[OF _ _ assms(1,3)] by simp
qed

text \<open>
  C7. When solveMaze returns solvable = true, the path is not empty, its first cell is on
  ring 0, its last cell is on ring rings - 1, inside the exit sector, and the outer wall of
  that cell is clear. When it returns solvable = false, the path is empty.
\<close>

theorem solveMaze_path_shape:
  assumes "solveMaze g cfg ex = Some res" "0 < rings cfg" "0 < slices cfg"
  shows "(solvable res \<longrightarrow>
            path res \<noteq> [] \<and> fst (hd (path res)) = 0 \<and> fst (last (path res)) = rings cfg - 1
          \<and> (\<exists>i < nat (sliceCount ex). snd (last (path res)) = (sliceStart ex + i) mod slices cfg)
          \<and> (\<exists>cell. getCell g (rings cfg - 1) (snd (last (path res))) = Some cell \<and> \<not> wallOuter cell))
       \<and> (\<not> solvable res \<longrightarrow> path res = [])"
proof -
  from solveMaze_unfold[of g cfg ex] obtain v q where
    s: "solveMaze g cfg ex = bfsLoop g cfg (exitCells cfg ex) v q"
    and i: "searchInv (slices cfg) (v, q)" by blast
  note b = bfsLoop_props[OF i assms(3) assms(1)[unfolded s]]
  show ?thesis
  proof (intro conjI impI)
    assume sv: "solvable res"
    with b have p: "path res \<noteq> []" "fst (hd (path res)) = 0"
      and c: "\<exists>cell. getCell g (fst (last (path res))) (snd (last (path res))) = Some cell \<and> \<not> wallOuter cell"
      and t: "key (slices cfg) (fst (last (path res))) (snd (last (path res))) \<in> exitCells cfg ex"
      and l: "snd (last (path res)) < slices cfg"
      by simp_all
    from t obtain i where i: "i < nat (sliceCount ex)"
      "key (slices cfg) (fst (last (path res))) (snd (last (path res)))
        = key (slices cfg) (rings cfg - 1) ((sliceStart ex + i) mod slices cfg)"
      by (auto simp: exitCells_def)
    have "(sliceStart ex + i) mod slices cfg < slices cfg" using assms(3) by simp
    from key_inj[OF i(2) l this]
    have e: "fst (last (path res)) = rings cfg - 1" "snd (last (path res)) = (sliceStart ex + i) mod slices cfg"
      by simp_all
    show "path res \<noteq> []" by (rule p(1))
    show "fst (hd (path res)) = 0" by (rule p(2))
    show "fst (last (path res)) = rings cfg - 1" by (rule e(1))
    show "\<exists>i < nat (sliceCount ex). snd (last (path res)) = (sliceStart ex + i) mod slices cfg"
      using i(1) e(2) by blast
    show "\<exists>cell. getCell g (rings cfg - 1) (snd (last (path res))) = Some cell \<and> \<not> wallOuter cell"
      using c e(1) by simp
  next
    assume "\<not> solvable res"
    with b show "path res = []" by simp
  qed
qed

section \<open>Theorems: generateMaze\<close>

lemma radial_connection:
  assumes "gridInv cfg g" "r < rings cfg - 1" "s < slices cfg"
  shows "\<exists>g'. do { g1 \<leftarrow> setCell g r s (\<lambda>c. c\<lparr>wallOuter := False\<rparr>);
                   setCell g1 (r + 1) s (\<lambda>c. c\<lparr>wallInner := False\<rparr>) } = Some g'
              \<and> gridInv cfg g'"
  using removeWall_Outer[OF assms] by (simp add: removeWall_def)

lemma fallbackRing_inv:
  assumes "gridInv cfg g" "r < rings cfg" "0 < slices cfg"
  shows "\<exists>g'. fallbackRing cfg r g = Some g' \<and> gridInv cfg g'"
proof -
  have "\<exists>g1. forEach (\<lambda>s g. let ns = (s + 1) mod slices cfg
                             in do { g \<leftarrow> setCell g r s (\<lambda>c. c\<lparr>wallCW := False\<rparr>);
                                     setCell g r ns (\<lambda>c. c\<lparr>wallCCW := False\<rparr>) })
              [0..<slices cfg] g = Some g1 \<and> gridInv cfg g1"
  proof (rule forEach_inv[where P = "gridInv cfg", OF assms(1)])
    fix s g0 assume s: "s \<in> set [0..<slices cfg]" and i: "gridInv cfg g0"
    from s have "s < slices cfg" by simp
    from clear_cw_pair[OF i assms(2) this] obtain g1 g' where
      "setCell g0 r s (\<lambda>c. c\<lparr>wallCW := False\<rparr>) = Some g1"
      "setCell g1 r ((s + 1) mod slices cfg) (\<lambda>c. c\<lparr>wallCCW := False\<rparr>) = Some g'"
      "gridInv cfg g'" by blast
    then show "\<exists>s'. (let ns = (s + 1) mod slices cfg
                      in do { g \<leftarrow> setCell g0 r s (\<lambda>c. c\<lparr>wallCW := False\<rparr>);
                              setCell g r ns (\<lambda>c. c\<lparr>wallCCW := False\<rparr>) }) = Some s'
                \<and> gridInv cfg s'"
      by (simp add: Let_def)
  qed
  then obtain g1 where g1: "forEach (\<lambda>s g. let ns = (s + 1) mod slices cfg
                             in do { g \<leftarrow> setCell g r s (\<lambda>c. c\<lparr>wallCW := False\<rparr>);
                                     setCell g r ns (\<lambda>c. c\<lparr>wallCCW := False\<rparr>) })
              [0..<slices cfg] g = Some g1" "gridInv cfg g1" by blast
  show ?thesis
  proof (cases "r < rings cfg - 1")
    case True
    have "r mod slices cfg < slices cfg" using assms(3) by simp
    from radial_connection[OF g1(2) True this] show ?thesis
      using g1(1) True by (simp add: fallbackRing_def Let_def)
  next
    case False
    then show ?thesis using g1 by (simp add: fallbackRing_def)
  qed
qed

lemma gridInv_createEmptyGrid: "gridInv cfg (createEmptyGrid cfg)"
  by (simp add: gridInv_def wfGrid_createEmptyGrid paired_createEmptyGrid)

lemma fallback_rings:
  assumes "0 < slices cfg"
  shows "\<exists>g. forEach (fallbackRing cfg) [0..<rings cfg] (createEmptyGrid cfg) = Some g \<and> gridInv cfg g"
proof (rule forEach_inv[where P = "gridInv cfg", OF gridInv_createEmptyGrid])
  fix r g assume "r \<in> set [0..<rings cfg]" "gridInv cfg g"
  then show "\<exists>s'. fallbackRing cfg r g = Some s' \<and> gridInv cfg s'"
    using assms by (intro fallbackRing_inv) simp_all
qed

lemma generateFallbackMaze_total:
  assumes "0 < rings cfg" "2 \<le> slices cfg"
  shows "\<exists>m. generateFallbackMaze cfg prm = Some m \<and> gridInv cfg (cells m) \<and> config m = cfg
      \<and> exitOpen cfg (exit m) (cells m)"
proof -
  have s0: "0 < slices cfg" and s1: "1 < slices cfg" using assms(2) by simp_all
  from fallback_rings[OF s0] obtain g where
    g: "forEach (fallbackRing cfg) [0..<rings cfg] (createEmptyGrid cfg) = Some g" "gridInv cfg g"
    by blast
  from clear_outer_last[OF g(2) assms(1) s0] obtain g1 where
    g1: "setCell g (rings cfg - 1) 0 (\<lambda>c. c\<lparr>wallOuter := False\<rparr>) = Some g1" "gridInv cfg g1"
      "\<not> wallOuter (g1 ! (rings cfg - 1) ! 0)"
    by blast
  from clear_outer_last[OF g1(2) assms(1) s1] obtain g2 where
    g2: "setCell g1 (rings cfg - 1) 1 (\<lambda>c. c\<lparr>wallOuter := False\<rparr>) = Some g2" "gridInv cfg g2"
      "\<not> wallOuter (g2 ! (rings cfg - 1) ! 1)"
      "\<forall>s'. \<not> wallOuter (g1 ! (rings cfg - 1) ! s') \<longrightarrow> \<not> wallOuter (g2 ! (rings cfg - 1) ! s')"
    by blast
  have open2: "\<forall>i \<in> {0..<2::nat}. \<not> wallOuter (g2 ! (rings cfg - 1) ! (i mod slices cfg))"
  proof
    fix i :: nat assume "i \<in> {0..<2}"
    then have "i = 0 \<or> i = 1" by auto
    then show "\<not> wallOuter (g2 ! (rings cfg - 1) ! (i mod slices cfg))"
      using g1(3) g2(3,4) s1 by auto
  qed
  show ?thesis
    using g(1) g1(1) g2(1,2) open2
    by (simp add: generateFallbackMaze_def exitOpen_def)
qed

lemma generateFallbackMaze_single_slice:
  assumes "0 < rings cfg" "slices cfg = 1"
  shows "generateFallbackMaze cfg prm = None"
proof -
  have s0: "0 < slices cfg" using assms(2) by simp
  from fallback_rings[OF s0] obtain g where
    g: "forEach (fallbackRing cfg) [0..<rings cfg] (createEmptyGrid cfg) = Some g" "gridInv cfg g"
    by blast
  from clear_outer_last[OF g(2) assms(1) s0] obtain g1 where
    g1: "setCell g (rings cfg - 1) 0 (\<lambda>c. c\<lparr>wallOuter := False\<rparr>) = Some g1" "gridInv cfg g1"
    by blast
  have "wfGrid cfg g1" using g1(2) by (simp add: gridInv_def)
  then have "length (g1 ! (rings cfg - 1)) = 1" using assms by (simp add: wfGrid_def)
  then have "setCell g1 (rings cfg - 1) 1 (\<lambda>c. c\<lparr>wallOuter := False\<rparr>) = None"
    by (simp add: setCell_def)
  then show ?thesis using g(1) g1(1) by (simp add: generateFallbackMaze_def)
qed

text \<open>What every returned maze satisfies.\<close>

lemma generateAttempts_good:
  assumes R: "0 < rings cfg" and S: "0 < slices cfg"
  shows "(2 \<le> slices cfg \<longrightarrow> (\<exists>m. generateAttempts k cfg prm sd = Some m))
       \<and> (\<forall>m. generateAttempts k cfg prm sd = Some m \<longrightarrow> goodMaze cfg prm m)"
proof (induction k arbitrary: sd)
  case 0
  have "goodMaze cfg prm m" if m: "generateFallbackMaze cfg prm = Some m" for m
  proof -
    have "2 \<le> slices cfg"
    proof (rule ccontr)
      assume "\<not> 2 \<le> slices cfg"
      then have "slices cfg = 1" using S by simp
      from generateFallbackMaze_single_slice[OF R this, of prm] m show False by simp
    qed
    from generateFallbackMaze_total[OF R this, of prm] m
    have p: "gridInv cfg (cells m)" "config m = cfg" "exitOpen cfg (exit m) (cells m)" by simp_all
    then have "wfGrid cfg (cells m)" by (simp add: gridInv_def)
    from solveMaze_total[OF this R S, of "exit m"] p m show ?thesis
      by (auto simp: goodMaze_def)
  qed
  then show ?case using generateFallbackMaze_total[OF R, of prm] by auto
next
  case (Suc k)
  show ?case
  proof (cases "checkGeometricConstraints cfg")
    case False
    then have "generateAttempts (Suc k) cfg prm sd = generateAttempts k cfg prm (sd + 1)"
      by simp
    then show ?thesis using Suc.IH[of "sd + 1"] by simp
  next
    case True
    from carveSpanningTree_inv[OF gridInv_createEmptyGrid S R] obtain g1 rng1 where
      a: "carveSpanningTree (createEmptyGrid cfg) cfg (createRNG sd) = Some (g1, rng1)" "gridInv cfg g1"
      by blast
    from openEntryHoles_inv[OF a(2) R S] obtain g2 rng2 where
      b: "openEntryHoles g1 cfg rng1 = Some (g2, rng2)" "gridInv cfg g2" by blast
    from addExtraOpenings_inv[OF b(2) R S] obtain g3 rng3 where
      c: "addExtraOpenings g2 cfg prm rng2 = Some (g3, rng3)" "gridInv cfg g3" by blast
    from capRadialWalls_inv[OF c(2)] obtain g4 rng4 where
      d: "capRadialWalls g3 cfg prm rng3 = Some (g4, rng4)" "gridInv cfg g4" by blast
    from placeExit_inv[OF d(2) R S] obtain g5 ex rng5 where
      e: "placeExit g4 cfg prm rng4 = Some (g5, ex, rng5)" "gridInv cfg g5"
        "sliceStart ex < slices cfg" "exitOpen cfg ex g5" by blast
    from ensurePathToExit_inv[OF e(2,3,4)] obtain g6 where
      f: "ensurePathToExit g5 cfg ex = Some g6" "gridInv cfg g6" "exitOpen cfg ex g6" by blast
    have "wfGrid cfg g6" using f(2) by (simp add: gridInv_def)
    from solveMaze_total[OF this R S] obtain res where
      s: "solveMaze g6 cfg ex = Some res" by blast
    have u: "generateAttempts (Suc k) cfg prm sd =
        (if solvable res
         then Some \<lparr>cells = g6, exit = ex, config = cfg, params = prm, finalSeed = sd\<rparr>
         else generateAttempts k cfg prm (sd + 1))"
      using True a(1) b(1) c(1) d(1) e(1) f(1) s by simp
    show ?thesis
    proof (cases "solvable res")
      case True
      then show ?thesis using u f(2,3) s by (simp add: goodMaze_def)
    next
      case False
      then show ?thesis using u Suc.IH[of "sd + 1"] by simp
    qed
  qed
qed

lemma not_feasible_fallback:
  "\<not> checkGeometricConstraints cfg \<Longrightarrow> generateAttempts k cfg prm sd = generateFallbackMaze cfg prm"
  by (induction k arbitrary: sd) simp_all

lemma fallback_solvable_2_4:
  "(case generateFallbackMaze (testConfig 2 4 sd) defaultGenerationParams of None \<Rightarrow> False | Some m \<Rightarrow> solvedBy m)"
  by code_simp

lemma fallback_solvable_4_16:
  "(case generateFallbackMaze (testConfig 4 16 sd) defaultGenerationParams of None \<Rightarrow> False | Some m \<Rightarrow> solvedBy m)"
  by code_simp

lemma fallback_solvable_6_12:
  "(case generateFallbackMaze (testConfig 6 12 sd) defaultGenerationParams of None \<Rightarrow> False | Some m \<Rightarrow> solvedBy m)"
  by code_simp

lemma generateMaze_good:
  assumes "generateMaze cfg prm = Some m" "0 < rings cfg" "0 < slices cfg"
  shows "goodMaze cfg prm m"
  using generateAttempts_good[OF assms(2,3), of MAX_REGEN_ATTEMPTS prm "seed cfg"] assms(1)
  by (simp add: generateMaze_def)

lemma generateMaze_total:
  assumes "0 < rings cfg" "2 \<le> slices cfg"
  shows "\<exists>m. generateMaze cfg prm = Some m"
proof -
  have "0 < slices cfg" using assms(2) by simp
  from generateAttempts_good[OF assms(1) this, of MAX_REGEN_ATTEMPTS prm "seed cfg"] assms(2)
  show ?thesis by (simp add: generateMaze_def)
qed

lemma solved_or_fallback:
  assumes R: "0 < rings cfg" and S: "2 \<le> slices cfg"
    and fb: "case generateFallbackMaze cfg prm of None \<Rightarrow> False | Some m \<Rightarrow> solvedBy m"
  shows "\<exists>m res. generateMaze cfg prm = Some m
           \<and> solveMaze (cells m) (config m) (exit m) = Some res \<and> solvable res"
proof -
  from generateMaze_total[OF R S, of prm] obtain m where m: "generateMaze cfg prm = Some m" by blast
  have S0: "0 < slices cfg" using S by simp
  from generateMaze_good[OF m R S0] obtain res where
    c: "config m = cfg" and s: "solveMaze (cells m) cfg (exit m) = Some res"
    and d: "solvable res \<or> generateFallbackMaze cfg prm = Some m"
    by (auto simp: goodMaze_def)
  have "solvable res"
  proof (rule disjE[OF d])
    assume "generateFallbackMaze cfg prm = Some m"
    with fb have "solvedBy m" by simp
    then show "solvable res" using s c by (simp add: solvedBy_def)
  qed
  then show ?thesis using m s c by auto
qed

text \<open>
  C1. For every seed in [0, 50) and (rings, slices) in {(2,4), (4,16), (6,12)}, with inner
  radius 30, outer radius 200, ball radius 6 and the default parameters, generateMaze
  returns a maze and solveMaze on its cells, config and exit reports solvable = true.
  Generation returns either a maze that passed the solver or, after the retry budget, the
  fallback maze, which the solver accepts for these three sizes.
\<close>

theorem generateMaze_universally_solvable:
  assumes "0 \<le> sd" "sd < 50" "(r, s) \<in> {(2, 4), (4, 16), (6, 12)}"
  shows "\<exists>m res. generateMaze (testConfig r s sd) defaultGenerationParams = Some m
           \<and> solveMaze (cells m) (config m) (exit m) = Some res \<and> solvable res"
proof -
  from assms(3) consider "r = 2" "s = 4" | "r = 4" "s = 16" | "r = 6" "s = 12" by auto
  then show ?thesis
  proof cases
    case 1
    have "0 < rings (testConfig 2 4 sd)" "2 \<le> slices (testConfig 2 4 sd)" by (simp_all add: testConfig_def)
    from solved_or_fallback[OF this fallback_solvable_2_4] show ?thesis using 1 by simp
  next
    case 2
    have "0 < rings (testConfig 4 16 sd)" "2 \<le> slices (testConfig 4 16 sd)" by (simp_all add: testConfig_def)
    from solved_or_fallback[OF this fallback_solvable_4_16] show ?thesis using 2 by simp
  next
    case 3
    have "0 < rings (testConfig 6 12 sd)" "2 \<le> slices (testConfig 6 12 sd)" by (simp_all add: testConfig_def)
    from solved_or_fallback[OF this fallback_solvable_6_12] show ?thesis using 3 by simp
  qed
qed

text \<open>
  The theorem at seed 7 and a 2 by 4 maze.
\<close>

theorem generateMaze_universally_solvable_witness:
  "(0::int) \<le> 7 \<and> (7::int) < 50 \<and> (2::nat, 4::nat) \<in> {(2, 4), (4, 16), (6, 12)}
   \<and> (\<exists>m res. generateMaze (testConfig 2 4 7) defaultGenerationParams = Some m
           \<and> solveMaze (cells m) (config m) (exit m) = Some res \<and> solvable res)"
proof -
  have a: "(0::int) \<le> 7" "(7::int) < 50" "(2::nat, 4::nat) \<in> {(2, 4), (4, 16), (6, 12)}" by simp_all
  from generateMaze_universally_solvable[OF a] show ?thesis using a by blast
qed

text \<open>
  C6. In every maze returned by generateMaze (rings, slices \<ge> 1) the paired wall flags
  agree: wallCW of a cell equals wallCCW of its clockwise neighbour, and wallOuter of a cell
  equals wallInner of the cell outside it. Every removeWall between a cell and one of its
  neighbours keeps a well-formed paired grid well-formed and paired.
\<close>

theorem generateMaze_walls_paired:
  assumes "generateMaze cfg prm = Some m" "1 \<le> rings cfg" "1 \<le> slices cfg"
  shows "config m = cfg \<and> wfGrid cfg (cells m) \<and> paired cfg (cells m)
       \<and> (\<forall>g r s n. wfGrid cfg g \<and> paired cfg g \<and> r < rings cfg \<and> s < slices cfg
                     \<and> n \<in> set (getNeighbors r s cfg)
             \<longrightarrow> (\<exists>g'. removeWall g r s (nring n) (nslice n) (direction n) = Some g'
                       \<and> wfGrid cfg g' \<and> paired cfg g'))"
proof -
  have R: "0 < rings cfg" and S: "0 < slices cfg" using assms(2,3) by simp_all
  from generateMaze_good[OF assms(1) R S]
  have "config m = cfg \<and> wfGrid cfg (cells m) \<and> paired cfg (cells m)"
    by (simp add: goodMaze_def gridInv_def)
  moreover have "\<exists>g'. removeWall g r s (nring n) (nslice n) (direction n) = Some g'
                       \<and> wfGrid cfg g' \<and> paired cfg g'"
    if "wfGrid cfg g \<and> paired cfg g \<and> r < rings cfg \<and> s < slices cfg \<and> n \<in> set (getNeighbors r s cfg)"
    for g r s n
    using removeWall_neighbor[of cfg g r s n] that by (simp add: gridInv_def)
  ultimately show ?thesis by blast
qed

text \<open>
  The theorem at the 4 by 8 maze of seed 42.
\<close>

theorem generateMaze_walls_paired_witness:
  "\<exists>m. generateMaze (testConfig 4 8 42) defaultGenerationParams = Some m
      \<and> 1 \<le> rings (testConfig 4 8 42) \<and> 1 \<le> slices (testConfig 4 8 42)
      \<and> wfGrid (testConfig 4 8 42) (cells m) \<and> paired (testConfig 4 8 42) (cells m)"
proof -
  have R: "0 < rings (testConfig 4 8 42)" "2 \<le> slices (testConfig 4 8 42)"
    and R1: "1 \<le> rings (testConfig 4 8 42)" "1 \<le> slices (testConfig 4 8 42)"
    by (simp_all add: testConfig_def)
  from generateMaze_total[OF R, of defaultGenerationParams] obtain m where
    m: "generateMaze (testConfig 4 8 42) defaultGenerationParams = Some m" by blast
  from generateMaze_walls_paired[OF m R1] m R1 show ?thesis by blast
qed

text \<open>
  C5, failing input. With a single slice and a configuration that fails the geometric
  check (twelve rings between the radii 30 and 200, ball radius 6), every attempt is skipped
  and the fallback maze writes \<open>cells[rings - 1][1]\<close>, which does not exist: generateMaze
  throws instead of returning a maze with an open exit.
\<close>

theorem generateMaze_single_slice_fallback_throws:
  "1 \<le> rings singleSliceConfig \<and> 1 \<le> slices singleSliceConfig
   \<and> generateMaze singleSliceConfig defaultGenerationParams = None"
proof -
  have "\<not> checkGeometricConstraints singleSliceConfig"
    by (simp add: checkGeometricConstraints_def singleSliceConfig_def GEOMETRIC_MARGIN_def Let_def)
  then have "generateMaze singleSliceConfig defaultGenerationParams
      = generateFallbackMaze singleSliceConfig defaultGenerationParams"
    by (simp add: generateMaze_def not_feasible_fallback)
  moreover have "generateFallbackMaze singleSliceConfig defaultGenerationParams = None"
    by (rule generateFallbackMaze_single_slice) (simp_all add: singleSliceConfig_def)
  ultimately show ?thesis by (simp add: singleSliceConfig_def)
qed

lemma exit_sector_open_when_returned:
  assumes "generateMaze cfg prm = Some m" "1 \<le> rings cfg" "1 \<le> slices cfg"
  shows "exitOpen (config m) (exit m) (cells m)"
proof -
  have R: "0 < rings cfg" and S: "0 < slices cfg" using assms(2,3) by simp_all
  from generateMaze_good[OF assms(1) R S] show ?thesis by (simp add: goodMaze_def)
qed

text \<open>
  The theorem on the fallback maze of 2 rings and 4 slices: the path is (0,0), (1,0).
\<close>

theorem solveMaze_path_shape_witness:
  "\<exists>m res. generateFallbackMaze (testConfig 2 4 0) defaultGenerationParams = Some m
      \<and> solveMaze (cells m) (testConfig 2 4 0) (exit m) = Some res
      \<and> solvable res \<and> path res = [(0, 0), (1, 0)]
      \<and> fst (hd (path res)) = 0 \<and> fst (last (path res)) = rings (testConfig 2 4 0) - 1"
proof -
  have e: "(case generateFallbackMaze (testConfig 2 4 0) defaultGenerationParams of None \<Rightarrow> False
            | Some m \<Rightarrow> (case solveMaze (cells m) (testConfig 2 4 0) (exit m) of None \<Rightarrow> False
                | Some res \<Rightarrow> solvable res \<and> path res = [(0, 0), (1, 0)]))"
    by code_simp
  then obtain m res where m: "generateFallbackMaze (testConfig 2 4 0) defaultGenerationParams = Some m"
    and s: "solveMaze (cells m) (testConfig 2 4 0) (exit m) = Some res"
    and r: "solvable res" "path res = [(0, 0), (1, 0)]"
    by (auto split: option.splits)
  have R: "0 < rings (testConfig 2 4 0)" "0 < slices (testConfig 2 4 0)" by (simp_all add: testConfig_def)
  from solveMaze_path_shape[OF s R] r(1)
  have "fst (hd (path res)) = 0 \<and> fst (last (path res)) = rings (testConfig 2 4 0) - 1" by blast
  then show ?thesis using m s r by blast
qed

end
